theory Spec2Isabelle
  imports Main "HOL-Library.Word"
begin

section \<open>The lazy array of package lazy (array.go)\<close>

text \<open>
  Go's \<open>int\<close> is a fixed-width two's complement integer whose arithmetic wraps around
  silently; on amd64, the platform of the benchmark figures in the package comment, it
  has 64 bits. It is modelled as \<open>64 word\<close>: \<open>+\<close> and \<open>-\<close> wrap, and the comparisons of
  the source are the signed ones (\<open><s\<close>, \<open>\<le>s\<close>).
\<close>

type_synonym int64 = "64 word"

text \<open>
  The ways a call can panic: the two explicit panics of \<open>Slice\<close> and \<open>Splice\<close>, the
  failed type assertion \<open>v.(Slicer)\<close> inside \<open>forEach\<close>, and the out-of-range slice
  expression inside a payload's own \<open>Slice\<close>.
\<close>

datatype error =
    InvalidSliceArgs
  | InvalidSpliceArgs
  | NotASlicer
  | SliceBoundsOutOfRange

text \<open>
  \<open>type Array struct { Limit, Count int; Value interface{}; offset, rcount int;
  replacement *Array }\<close>. The dynamic value held by \<open>Value\<close> is the nil interface
  (as in the zero \<open>Array{}\<close>), a payload implementing \<open>Slicer\<close>, or an \<open>Array\<close>
  stored by value; any other value fails the type assertion \<open>v.(Slicer)\<close> as the nil
  interface does. Arrays are never mutated after construction, so the pointer
  \<open>replacement\<close> is an optional sub-term. The payload is the \<open>Slicer\<close> of the test
  file, a string, here a list over any element type.
\<close>

datatype 'a array =
  Array (Limit: int64) (Count: int64) (Value: "'a iface")
        (offset: int64) (rcount: int64) (replacement: "'a array option")
and 'a iface =
    NilValue
  | Slicer "'a list"
  | Arr "'a array"

text \<open>The zero value \<open>lazy.Array{}\<close>.\<close>

definition zero :: "'a array" where
  "zero = Array 0 0 NilValue 0 0 None"

text \<open>
  \<open>func newArray(str string) lazy.Array\<close> of the test file, and the literal
  \<open>lazy.Array{Limit: limit, Count: len(str), Value: Slicer(str)}\<close> used by the random
  tests. \<open>len\<close> of a Go string is an \<open>int\<close>.
\<close>

definition len :: "'a list \<Rightarrow> int64" where
  "len s = of_nat (length s)"

definition newLeaf :: "int64 \<Rightarrow> 'a list \<Rightarrow> 'a array" where
  "newLeaf limit s = Array limit (len s) (Slicer s) 0 0 None"

definition newArray :: "'a list \<Rightarrow> 'a array" where
  "newArray s = newLeaf 0 s"

subsection \<open>Slice and Splice\<close>

definition Slice :: "'a array \<Rightarrow> int64 \<Rightarrow> int64 \<Rightarrow> error + 'a array" where
  "Slice a off cnt =
    (if off <s 0 \<or> cnt <s 0 \<or> Count a <s off + cnt then Inl InvalidSliceArgs
     else if off = 0 \<and> cnt = Count a then Inr a
     else if cnt = 0 then Inr (Array (Limit a) 0 NilValue 0 0 None)
     else if replacement a = None
       then Inr (Array (Limit a) cnt (Value a) (offset a + off) 0 None)
     else Inr (Array (Limit a - 1) cnt (Arr a) off 0 None))"

definition Splice :: "'a array \<Rightarrow> int64 \<Rightarrow> int64 \<Rightarrow> 'a array \<Rightarrow> error + 'a array" where
  "Splice a off cnt r =
    (if off <s 0 \<or> cnt <s 0 \<or> Count a <s off + cnt then Inl InvalidSpliceArgs
     else if off = 0 \<and> cnt = Count a then Inr r
     else
       let diff = Count r - cnt;
           (v, limit) =
             (if offset a \<noteq> 0 \<or> replacement a \<noteq> None
              then (Arr a, Limit a - 1) else (Value a, Limit a))
       in Inr (Array limit (Count a + diff) v off cnt (Some r)))"

subsection \<open>Traversal\<close>

text \<open>
  \<open>func (s Slicer) Slice(offset, count int) interface{} { return s[offset : offset+count] }\<close>
  of the test file. A Go slice expression \<open>s[lo:hi]\<close> panics unless
  \<open>0 \<le> lo \<le> hi \<le> len(s)\<close>.
\<close>

definition Slicer_Slice :: "'a list \<Rightarrow> int64 \<Rightarrow> int64 \<Rightarrow> error + 'a list" where
  "Slicer_Slice s off cnt =
    (let lo = off; hi = off + cnt
     in if 0 \<le>s lo \<and> lo \<le>s hi \<and> sint hi \<le> int (length s)
        then Inr (take (nat (sint hi) - nat (sint lo)) (drop (nat (sint lo)) s))
        else Inl SliceBoundsOutOfRange)"

definition intersect :: "int64 \<Rightarrow> int64 \<Rightarrow> int64 \<Rightarrow> int64 \<Rightarrow> int64 \<times> int64" where
  "intersect o1 c1 o2 c2 =
    (let s = (if o1 <s o2 then o2 else o1);
         e = (if o2 + c2 <s o1 + c1 then o2 + c2 else o1 + c1)
     in if s <s e then (s, e - s) else (0, 0))"

text \<open>
  What a traversal does, in order. \<open>Enter t off cnt\<close> marks the entry of one of the two
  \<open>forEach\<close> functions with the window \<open>(off, cnt)\<close> on the target \<open>t\<close> (it has no
  effect in the program and is recorded so that statements about the recursion's windows can
  be made). \<open>Request s off cnt\<close> is the call \<open>v.(Slicer).Slice(off, cnt)\<close> on the
  payload \<open>s\<close>, and \<open>Visit seg cnt\<close> the call \<open>fn(seg, cnt)\<close> of the callback.
\<close>

datatype 'a event =
    Enter "'a iface" int64 int64
  | Request "'a list" int64 int64
  | Visit "'a list" int64

text \<open>A run is the events so far and the panic that ended it, if one did.\<close>

type_synonym 'a run = "'a event list \<times> error option"

definition andThen :: "'a run \<Rightarrow> 'a run \<Rightarrow> 'a run" where
  "andThen r1 r2 =
    (case snd r1 of
       Some e \<Rightarrow> r1
     | None \<Rightarrow> (fst r1 @ fst r2, snd r2))"

definition enter :: "'a iface \<Rightarrow> int64 \<Rightarrow> int64 \<Rightarrow> 'a run" where
  "enter t off cnt = ([Enter t off cnt], None)"

text \<open>
  The package function \<open>forEach(v, offset, count, fn)\<close> and the method
  \<open>a.forEach(offset, count, fn)\<close>, here \<open>Array_forEach\<close>.
\<close>

fun forEach :: "'a iface \<Rightarrow> int64 \<Rightarrow> int64 \<Rightarrow> 'a run"
and Array_forEach :: "'a array \<Rightarrow> int64 \<Rightarrow> int64 \<Rightarrow> 'a run" where
  "forEach v off cnt =
    andThen (enter v off cnt)
     (if cnt = 0 then ([], None)
      else case v of
        Arr a \<Rightarrow> Array_forEach a off cnt
      | Slicer s \<Rightarrow>
          (case Slicer_Slice s off cnt of
             Inl e \<Rightarrow> ([Request s off cnt], Some e)
           | Inr seg \<Rightarrow> ([Request s off cnt, Visit seg cnt], None))
      | NilValue \<Rightarrow> ([], Some NotASlicer))"
| "Array_forEach (Array limit count v aoff rc rep) off cnt =
    andThen (enter (Arr (Array limit count v aoff rc rep)) off cnt)
     (if cnt = 0 then ([], None)
      else case rep of
        Some r \<Rightarrow>
          (let (o1, c1) = intersect off cnt 0 aoff;
               (o2, c2) = intersect off cnt aoff (Count r);
               (o3, c3) = intersect off cnt (aoff + Count r) count
           in andThen (forEach v o1 c1)
               (andThen (Array_forEach r (o2 - aoff) c2)
                 (forEach v (o3 - Count r + rc) c3)))
      | None \<Rightarrow> forEach v (aoff + off) cnt)"

definition ForEach :: "'a array \<Rightarrow> 'a run" where
  "ForEach a = Array_forEach a 0 (Count a)"

subsection \<open>What a run shows\<close>

text \<open>
  The windows of the recursive calls, the requests made to payloads and the calls of the
  callback, each in the order of the run.
\<close>

definition enters :: "'a run \<Rightarrow> ('a iface \<times> int64 \<times> int64) list" where
  "enters r = concat (map (\<lambda>e. case e of Enter t off cnt \<Rightarrow> [(t, off, cnt)] | _ \<Rightarrow> []) (fst r))"

definition requests :: "'a run \<Rightarrow> ('a list \<times> int64 \<times> int64) list" where
  "requests r = concat (map (\<lambda>e. case e of Request s off cnt \<Rightarrow> [(s, off, cnt)] | _ \<Rightarrow> []) (fst r))"

definition visits :: "'a run \<Rightarrow> ('a list \<times> int64) list" where
  "visits r = concat (map (\<lambda>e. case e of Visit seg cnt \<Rightarrow> [(seg, cnt)] | _ \<Rightarrow> []) (fst r))"

text \<open>What \<open>toString\<close> of the test file builds: the segments visited, concatenated.\<close>

definition segments :: "'a run \<Rightarrow> 'a list" where
  "segments r = concat (map fst (visits r))"

subsection \<open>Positions as numbers\<close>

text \<open>
  A non-negative \<open>int\<close> read as a position in a list. \<open>in_bounds off cnt n\<close> says
  that the range \<open>[off, off + cnt)\<close> lies within \<open>[0, n]\<close>, the sum being the sum of
  the numbers and not the wrapped one.
\<close>

definition nat_of :: "int64 \<Rightarrow> nat" where
  "nat_of w = nat (sint w)"

definition in_bounds :: "int64 \<Rightarrow> int64 \<Rightarrow> int \<Rightarrow> bool" where
  "in_bounds off cnt n \<longleftrightarrow> 0 \<le> sint off \<and> 0 \<le> sint cnt \<and> sint off + sint cnt \<le> n"

text \<open>The segment a payload returns for an in-range request, with the count passed along.\<close>

definition slice_of :: "'a list \<times> int64 \<times> int64 \<Rightarrow> 'a list \<times> int64" where
  "slice_of q = (case q of (s, off, cnt) \<Rightarrow> (take (nat_of cnt) (drop (nat_of off) s), cnt))"

subsection \<open>The content a node stands for\<close>

text \<open>
  The data model of the specification: a node without replacement is the window of
  length \<open>Count\<close> starting at \<open>offset\<close> in its value; a node with a replacement is
  its value with \<open>rcount\<close> positions from \<open>offset\<close> on replaced by the replacement,
  cut to \<open>Count\<close> positions.
\<close>

fun content :: "'a array \<Rightarrow> 'a list"
and vcontent :: "'a iface \<Rightarrow> 'a list" where
  "content (Array limit count v aoff rc rep) =
    take (nat_of count)
      (case rep of
         None \<Rightarrow> drop (nat_of aoff) (vcontent v)
       | Some r \<Rightarrow>
           take (nat_of aoff) (vcontent v) @ content r @
           drop (nat_of aoff + nat_of rc) (vcontent v))"
| "vcontent NilValue = []"
| "vcontent (Slicer s) = s"
| "vcontent (Arr a) = content a"

text \<open>The leaf payloads a node refers to.\<close>

fun payloads :: "'a array \<Rightarrow> 'a list set"
and vpayloads :: "'a iface \<Rightarrow> 'a list set" where
  "payloads (Array limit count v aoff rc rep) =
    vpayloads v \<union> (case rep of None \<Rightarrow> {} | Some r \<Rightarrow> payloads r)"
| "vpayloads NilValue = {}"
| "vpayloads (Slicer s) = {s}"
| "vpayloads (Arr a) = payloads a"

text \<open>The count of the node or payload a window is requested from.\<close>

fun bound :: "'a iface \<Rightarrow> int" where
  "bound NilValue = 0"
| "bound (Slicer s) = int (length s)"
| "bound (Arr a) = sint (Count a)"

text \<open>
  The invariant of the nodes whose fields have not wrapped around: offsets and counts
  are non-negative and lie within the value, and a replacement fits into the count. The
  length of a payload is a Go \<open>int\<close>.
\<close>

fun valid :: "'a array \<Rightarrow> bool"
and valid_v :: "'a iface \<Rightarrow> bool" where
  "valid (Array limit count v aoff rc rep) =
    (valid_v v \<and> 0 \<le> sint aoff \<and> 0 \<le> sint count \<and>
     (case rep of
        None \<Rightarrow> sint aoff + sint count \<le> int (length (vcontent v))
      | Some r \<Rightarrow>
          valid r \<and> 0 \<le> sint rc \<and>
          sint aoff + sint (Count r) \<le> sint count \<and>
          sint count - sint (Count r) + sint rc \<le> int (length (vcontent v))))"
| "valid_v NilValue = True"
| "valid_v (Slicer s) = (length s < 2 ^ 63)"
| "valid_v (Arr a) = valid a"

text \<open>
  For the tail zone of a node with a replacement, the traversal passes
  \<open>offset + replacement.Count\<close> and \<open>Count\<close> to \<open>intersect\<close>, which adds them.
  \<open>tail_fits\<close> says that for every node with a replacement in the structure this sum,
  \<open>offset + replacement.Count + Count\<close>, is below \<open>2 ^ 63\<close>, so that it does not wrap.
\<close>

fun tail_fits :: "'a array \<Rightarrow> bool"
and tail_fits_v :: "'a iface \<Rightarrow> bool" where
  "tail_fits (Array limit count v aoff rc rep) =
    (tail_fits_v v \<and>
     (case rep of
        None \<Rightarrow> True
      | Some r \<Rightarrow> tail_fits r \<and> sint aoff + sint (Count r) + sint count < 2 ^ 63))"
| "tail_fits_v NilValue = True"
| "tail_fits_v (Slicer s) = True"
| "tail_fits_v (Arr a) = tail_fits a"

text \<open>
  The runs of leaf content that the structure records for the window of \<open>n\<close> positions
  from position \<open>p\<close> on: the window of a payload is one run; the window of a node
  without replacement is the window of its value, shifted by the offset; the window of a
  node with a replacement is cut at the two ends of the replacement into the part in the
  head zone, the part in the replacement and the part in the tail zone, each with its own
  runs, in this order. An empty part has no run. A run is a payload, the position where
  it starts and its length.
\<close>

fun runs :: "'a array \<Rightarrow> nat \<Rightarrow> nat \<Rightarrow> ('a list \<times> nat \<times> nat) list"
and vruns :: "'a iface \<Rightarrow> nat \<Rightarrow> nat \<Rightarrow> ('a list \<times> nat \<times> nat) list" where
  "runs (Array limit count v aoff rc rep) p n =
    (case rep of
       None \<Rightarrow> vruns v (nat_of aoff + p) n
     | Some r \<Rightarrow>
         vruns v p (min (p + n) (nat_of aoff) - p) @
         runs r (max p (nat_of aoff) - nat_of aoff)
           (min (p + n) (nat_of aoff + nat_of (Count r)) - max p (nat_of aoff)) @
         vruns v (max p (nat_of aoff + nat_of (Count r)) - nat_of (Count r) + nat_of rc)
           (p + n - max p (nat_of aoff + nat_of (Count r))))"
| "vruns NilValue p n = []"
| "vruns (Slicer s) p n = (if n = 0 then [] else [(s, p, n)])"
| "vruns (Arr a) p n = runs a p n"

text \<open>A request read as a run: its offset and count as numbers.\<close>

definition run_of :: "'a list \<times> int64 \<times> int64 \<Rightarrow> 'a list \<times> nat \<times> nat" where
  "run_of q = (case q of (s, off, cnt) \<Rightarrow> (s, nat_of off, nat_of cnt))"

subsection \<open>Nodes built through the interface, and the eager reference\<close>

text \<open>
  The eager operations of the test file on a string:
  \<open>s[offset : offset+count]\<close> and \<open>s[:offset] + r + s[offset+count:]\<close>.
\<close>

definition eager_slice :: "'a list \<Rightarrow> int64 \<Rightarrow> int64 \<Rightarrow> 'a list" where
  "eager_slice s off cnt = take (nat_of cnt) (drop (nat_of off) s)"

definition eager_splice :: "'a list \<Rightarrow> int64 \<Rightarrow> int64 \<Rightarrow> 'a list \<Rightarrow> 'a list" where
  "eager_splice s off cnt r = take (nat_of off) s @ r @ drop (nat_of off + nat_of cnt) s"

text \<open>
  \<open>tracks cap a xs\<close>: the node \<open>a\<close> and the string \<open>xs\<close> result from the same
  sequence of in-bounds edits, applied to a leaf over a string and to that string, where a
  replacement is any pair obtained in the same way. Every string the reference holds has
  fewer than \<open>cap\<close> elements.
\<close>

inductive tracks :: "nat \<Rightarrow> 'a array \<Rightarrow> 'a list \<Rightarrow> bool" for cap :: nat where
  leaf: "length s < cap \<Longrightarrow> length s < 2 ^ 63 \<Longrightarrow> tracks cap (newLeaf limit s) s"
| slice: "tracks cap a xs \<Longrightarrow> in_bounds off cnt (int (length xs)) \<Longrightarrow>
          Slice a off cnt = Inr b \<Longrightarrow> tracks cap b (eager_slice xs off cnt)"
| splice: "tracks cap a xs \<Longrightarrow> tracks cap r ys \<Longrightarrow>
          in_bounds off cnt (int (length xs)) \<Longrightarrow>
          length (eager_splice xs off cnt ys) < cap \<Longrightarrow>
          Splice a off cnt r = Inr b \<Longrightarrow> tracks cap b (eager_splice xs off cnt ys)"

text \<open>
  \<open>built cap a\<close>: the node \<open>a\<close> is the zero array, a leaf whose count does not
  exceed the length of its payload, or the result of an in-bounds \<open>Slice\<close> or
  \<open>Splice\<close> on such nodes, where the number \<open>Count + replacement.Count - count\<close> of
  positions of what \<open>Splice\<close> returns is below \<open>cap\<close>. For an in-bounds edit that
  number is below \<open>2 ^ 64\<close>, so that \<open>built (2 ^ 64)\<close> is every node built through
  the interface.
\<close>

inductive built :: "int \<Rightarrow> 'a array \<Rightarrow> bool" for cap :: int where
  zero: "built cap zero"
| leaf: "0 \<le> sint c \<Longrightarrow> sint c \<le> int (length s) \<Longrightarrow> length s < 2 ^ 63 \<Longrightarrow>
          built cap (Array limit c (Slicer s) 0 0 None)"
| slice: "built cap a \<Longrightarrow> in_bounds off cnt (sint (Count a)) \<Longrightarrow>
          Slice a off cnt = Inr b \<Longrightarrow> built cap b"
| splice: "built cap a \<Longrightarrow> built cap r \<Longrightarrow> in_bounds off cnt (sint (Count a)) \<Longrightarrow>
          sint (Count a) - sint cnt + sint (Count r) < cap \<Longrightarrow>
          Splice a off cnt r = Inr b \<Longrightarrow> built cap b"

text \<open>
  Two requests that follow each other are one contiguous run when the second starts in the
  same payload where the first ends. A list of requests is coalesced when no two
  neighbours are.
\<close>

fun coalesced :: "('a list \<times> int64 \<times> int64) list \<Rightarrow> bool" where
  "coalesced ((s, off, cnt) # (s', off', cnt') # qs) =
     (\<not> (s' = s \<and> off' = off + cnt) \<and> coalesced ((s', off', cnt') # qs))"
| "coalesced qs = True"

text \<open>
  A caller that splices a node into itself, \<open>a = a.Splice(0, 0, a)\<close>, as the tests
  splice nodes built before into later ones; and the same edit on the reference string.
\<close>

definition double :: "'a array \<Rightarrow> 'a array" where
  "double a = (case Splice a 0 0 a of Inr b \<Rightarrow> b | Inl e \<Rightarrow> a)"

definition eager_double :: "'a list \<Rightarrow> 'a list" where
  "eager_double xs = eager_splice xs 0 0 xs"

subsection \<open>What a traversal of a valid node is shown to do\<close>

text \<open>
  A window is acceptable when it is empty or lies within its target. A run is orderly
  when it does not panic, hands to the callback what its requests return, requests only
  non-empty in-range segments of payloads in \<open>S\<close>, and enters only acceptable windows.
  It is good for a window on the content \<open>xs\<close> and a list of runs when moreover it
  visits exactly that window of \<open>xs\<close> and its requests are exactly those runs.
\<close>

definition window_ok :: "int64 \<Rightarrow> int64 \<Rightarrow> int \<Rightarrow> bool" where
  "window_ok off cnt n \<longleftrightarrow> cnt = 0 \<or> in_bounds off cnt n"

definition orderly :: "'a list set \<Rightarrow> 'a run \<Rightarrow> bool" where
  "orderly S r \<longleftrightarrow>
     snd r = None \<and>
     visits r = map slice_of (requests r) \<and>
     (\<forall>(s, off, cnt) \<in> set (requests r).
        s \<in> S \<and> cnt \<noteq> 0 \<and> in_bounds off cnt (int (length s))) \<and>
     (\<forall>(t, off, cnt) \<in> set (enters r). window_ok off cnt (bound t))"

definition good ::
  "'a list set \<Rightarrow> 'a run \<Rightarrow> int64 \<Rightarrow> int64 \<Rightarrow> 'a list \<Rightarrow> ('a list \<times> nat \<times> nat) list \<Rightarrow> bool" where
  "good S r off cnt xs qs \<longleftrightarrow>
     orderly S r \<and> segments r = take (nat_of cnt) (drop (nat_of off) xs) \<and>
     map run_of (requests r) = qs"

section \<open>Proofs\<close>

subsection \<open>Arithmetic of \<open>int\<close> without wrap-around\<close>

declare forEach.simps [simp del] Array_forEach.simps [simp del]

lemma sint_add64:
  "- (2 ^ 63) \<le> sint a + sint b \<Longrightarrow> sint a + sint b < 2 ^ 63 \<Longrightarrow>
   sint (a + b :: int64) = sint a + sint b"
  by (simp add: sint_word_add signed_take_bit_int_eq_self)

lemma sint_sub64:
  "- (2 ^ 63) \<le> sint a - sint b \<Longrightarrow> sint a - sint b < 2 ^ 63 \<Longrightarrow>
   sint (a - b :: int64) = sint a - sint b"
  by (simp add: sint_word_diff signed_take_bit_int_eq_self)

lemma sint_less64: "sint (a :: int64) < 2 ^ 63"
  using sint_lt [of a] by simp

lemma sint_ge64: "- (2 ^ 63) \<le> sint (a :: int64)"
  using sint_ge [of a] by simp

lemma eq0_sint64: "(a = 0) = (sint (a :: int64) = 0)"
  by (metis signed_eq_0_iff)

lemma sint_len: "length s < 2 ^ 63 \<Longrightarrow> sint (len s) = int (length s)"
  unfolding len_def
  by (simp add: signed_of_nat signed_take_bit_int_eq_self)

lemma nat_of_0 [simp]: "nat_of 0 = 0"
  by (simp add: nat_of_def)

lemma nat_of_int: "0 \<le> sint w \<Longrightarrow> int (nat_of w) = sint w"
  by (simp add: nat_of_def)

lemma nat_of_add:
  assumes "0 \<le> sint a" "0 \<le> sint b" "sint a + sint b < 2 ^ 63"
  shows "sint (a + b) = sint a + sint b" and "nat_of (a + b) = nat_of a + nat_of b"
proof -
  show s: "sint (a + b) = sint a + sint b"
    using assms by (intro sint_add64) simp_all
  show "nat_of (a + b) = nat_of a + nat_of b"
    using s assms(1,2) unfolding nat_of_def by linarith
qed

lemma in_bounds_nat:
  assumes "in_bounds off cnt (int n)"
  shows "nat_of off + nat_of cnt \<le> n"
  using assms unfolding in_bounds_def nat_of_def by linarith

subsection \<open>The interval intersection\<close>

lemma intersect_props:
  fixes o1 c1 o2 c2 :: int64
  assumes "0 \<le> sint o1" "0 \<le> sint c1" "0 \<le> sint o2" "0 \<le> sint c2"
      "sint o1 + sint c1 < 2 ^ 63" "sint o2 + sint c2 < 2 ^ 63"
      "intersect o1 c1 o2 c2 = (s, n)"
      "S = max (sint o1) (sint o2)" "E = min (sint o1 + sint c1) (sint o2 + sint c2)"
  shows "sint n = (if S < E then E - S else 0)"
    and "S < E \<Longrightarrow> sint s = S"
    and "(n = 0) = (\<not> S < E)"
proof -
  have a1: "sint (o1 + c1) = sint o1 + sint c1" using assms by (simp add: sint_add64)
  have a2: "sint (o2 + c2) = sint o2 + sint c2" using assms by (simp add: sint_add64)
  define s' where "s' = (if o1 <s o2 then o2 else o1)"
  define e' where "e' = (if o2 + c2 <s o1 + c1 then o2 + c2 else o1 + c1)"
  have s': "sint s' = S"
    by (simp add: s'_def word_sless_alt assms(8))
  have e': "sint e' = E"
    by (simp add: e'_def word_sless_alt a1 a2 assms(9))
  have r: "(s, n) = (if s' <s e' then (s', e' - s') else (0, 0))"
    using assms(7) unfolding intersect_def s'_def e'_def Let_def by (rule sym)
  have d: "s' <s e' \<Longrightarrow> sint (e' - s') = sint e' - sint s'"
    using assms s' e' by (intro sint_sub64) (auto simp: word_sless_alt)
  show "sint n = (if S < E then E - S else 0)" and "S < E \<Longrightarrow> sint s = S"
    and "(n = 0) = (\<not> S < E)"
    using r d s' e' by (auto simp: word_sless_alt eq0_sint64 split: if_splits)
qed

lemma intersect_nat:
  fixes o1 c1 o2 c2 :: int64
  assumes "0 \<le> sint o1" "0 \<le> sint c1" "0 \<le> sint o2" "0 \<le> sint c2"
      "sint o1 + sint c1 < 2 ^ 63" "sint o2 + sint c2 < 2 ^ 63"
      "intersect o1 c1 o2 c2 = (s, n)"
  shows "nat_of n = min (nat_of o1 + nat_of c1) (nat_of o2 + nat_of c2) - max (nat_of o1) (nat_of o2)"
    and "n \<noteq> 0 \<Longrightarrow> nat_of s = max (nat_of o1) (nat_of o2)"
    and "0 \<le> sint n"
    and "n \<noteq> 0 \<Longrightarrow> 0 \<le> sint s"
    and "n \<noteq> 0 \<Longrightarrow> sint s + sint n = min (sint o1 + sint c1) (sint o2 + sint c2)"
    and "n \<noteq> 0 \<Longrightarrow> sint s = max (sint o1) (sint o2)"
proof -
  define S where "S = max (sint o1) (sint o2)"
  define E where "E = min (sint o1 + sint c1) (sint o2 + sint c2)"
  note p = intersect_props [OF assms S_def E_def]
  have i: "int (nat_of o1) = sint o1" "int (nat_of c1) = sint c1" "int (nat_of o2) = sint o2"
    "int (nat_of c2) = sint c2"
    using assms(1-4) by (simp_all add: nat_of_int)
  have S: "S = int (max (nat_of o1) (nat_of o2))" unfolding S_def using i by simp
  have E: "E = int (min (nat_of o1 + nat_of c1) (nat_of o2 + nat_of c2))"
    unfolding E_def using i by simp
  have nat_diff: "nat (int x - int y) = x - y" for x y :: nat by arith
  show "nat_of n = min (nat_of o1 + nat_of c1) (nat_of o2 + nat_of c2) - max (nat_of o1) (nat_of o2)"
  proof (cases "S < E")
    case True
    then have "nat_of n = nat (E - S)" using p(1) by (simp add: nat_of_def)
    then show ?thesis unfolding S E nat_diff .
  next
    case False
    then have "nat_of n = 0" using p(1) by (simp add: nat_of_def)
    moreover have "min (nat_of o1 + nat_of c1) (nat_of o2 + nat_of c2) -
                   max (nat_of o1) (nat_of o2) = 0"
      using False unfolding S E by linarith
    ultimately show ?thesis by simp
  qed
  show "0 \<le> sint n" using p(1) by (simp split: if_splits)
  assume n: "n \<noteq> 0"
  then have SE: "S < E" using p(3) by simp
  then have s: "sint s = S" by (rule p(2))
  show "nat_of s = max (nat_of o1) (nat_of o2)" unfolding nat_of_def s S by simp
  show "0 \<le> sint s" unfolding s S by simp
  show "sint s + sint n = min (sint o1 + sint c1) (sint o2 + sint c2)"
    using p(1) SE s unfolding E_def by simp
  show "sint s = max (sint o1) (sint o2)" using s S_def by simp
qed

text \<open>Where the sum \<open>o2 + c2\<close> wraps around, the intersection comes out empty.\<close>

lemma intersect_wrapped:
  fixes o1 c1 o2 c2 :: int64
  assumes "0 \<le> sint o1" "0 \<le> sint c1" "sint o1 + sint c1 < 2 ^ 63"
    and "2 ^ 63 \<le> sint o2 + sint c2"
  shows "intersect o1 c1 o2 c2 = (0, 0)"
proof -
  have a1: "sint (o1 + c1) = sint o1 + sint c1" using assms by (simp add: sint_add64)
  have le: "signed_take_bit 63 (sint o2 + sint c2) \<le> sint o2 + sint c2 - 18446744073709551616"
    using signed_take_bit_int_less_eq [of 63 "sint o2 + sint c2"] assms(4) by simp
  have lt: "sint o2 + sint c2 < 18446744073709551616"
    using sint_less64 [of o2] sint_less64 [of c2] by simp
  have eq: "sint (o2 + c2) = signed_take_bit 63 (sint o2 + sint c2)"
    using sint_word_add [of o2 c2] by simp
  have a2: "sint (o2 + c2) < 0"
    using le lt eq by linarith
  define s' where "s' = (if o1 <s o2 then o2 else o1)"
  have s': "0 \<le> sint s'" "sint o1 \<le> sint s'"
    using assms(1) by (simp_all add: s'_def word_sless_alt)
  have e: "(if o2 + c2 <s o1 + c1 then o2 + c2 else o1 + c1) = o2 + c2"
    using a1 a2 assms(1,2) by (simp add: word_sless_alt)
  have "\<not> s' <s o2 + c2" using s'(1) a2 by (simp add: word_sless_alt)
  then show ?thesis
    unfolding intersect_def Let_def e s'_def [symmetric] by simp
qed

subsection \<open>Windows of concatenations\<close>

lemma window_append:
  "take c (drop o' (A @ B)) =
     take (min (o' + c) (length A) - o') (drop o' A) @
     take (o' + c - max o' (length A)) (drop (max o' (length A) - length A) B)"
proof -
  have 1: "take c (drop o' A) = take (min (o' + c) (length A) - o') (drop o' A)"
    by (cases "o' + c \<le> length A") simp_all
  have 2: "take (c - (length A - o')) (drop (o' - length A) B) =
           take (o' + c - max o' (length A)) (drop (max o' (length A) - length A) B)"
    by (cases "o' \<le> length A") (simp_all add: max_def ac_simps)
  show ?thesis
    using 1 2 by simp
qed

lemma splice_window:
  fixes V R :: "'a list" and p k m C o' c :: nat
  assumes "length R = m" "p + m \<le> C" "C + k \<le> length V + m" "o' + c \<le> C"
  shows "take c (drop o' (take C (take p V @ R @ drop (p + k) V))) =
         take (min (o' + c) p - o') (drop o' V) @
         take (min (o' + c) (p + m) - max o' p) (drop (max o' p - p) R) @
         take (o' + c - max o' (p + m)) (drop (max o' (p + m) - m + k) V)"
proof -
  have len: "p \<le> length V" using assms by arith
  then have lenH: "length (take p V) = p" by simp
  define o2 where "o2 = max o' p - p"
  define c2 where "c2 = o' + c - max o' p"
  have 0: "take c (drop o' (take C X)) = take c (drop o' X)" for X :: "'a list"
    using assms(4) by (simp add: drop_take min_def)
  have 1: "take c (drop o' (take p V @ (R @ drop (p + k) V))) =
      take (min (o' + c) p - o') (drop o' (take p V)) @
      take c2 (drop o2 (R @ drop (p + k) V))"
    unfolding o2_def c2_def using window_append [of c o' "take p V" "R @ drop (p + k) V"]
    unfolding lenH .
  have 2: "take c2 (drop o2 (R @ drop (p + k) V)) =
      take (min (o2 + c2) m - o2) (drop o2 R) @
      take (o2 + c2 - max o2 m) (drop (max o2 m - m) (drop (p + k) V))"
    using window_append [of c2 o2 R "drop (p + k) V"] unfolding assms(1) .
  have 3: "take (min (o' + c) p - o') (drop o' (take p V)) =
           take (min (o' + c) p - o') (drop o' V)"
    by (simp add: drop_take min_def)
  have 4: "min (o2 + c2) m - o2 = min (o' + c) (p + m) - max o' p"
    unfolding o2_def c2_def by arith
  have 5: "o2 + c2 - max o2 m = o' + c - max o' (p + m)"
    unfolding o2_def c2_def by arith
  have 6: "0 < o' + c - max o' (p + m) \<Longrightarrow> max o2 m - m + (p + k) = max o' (p + m) - m + k"
    unfolding o2_def by arith
  have 7: "take (o2 + c2 - max o2 m) (drop (max o2 m - m) (drop (p + k) V)) =
           take (o' + c - max o' (p + m)) (drop (max o' (p + m) - m + k) V)"
  proof (cases "0 < o' + c - max o' (p + m)")
    case True
    show ?thesis unfolding 5 drop_drop 6 [OF True] ..
  next
    case False
    then have z: "o' + c - max o' (p + m) = 0" by arith
    show ?thesis unfolding 5 z by simp
  qed
  show ?thesis
    unfolding 0 1 2 3 4 7 unfolding o2_def ..
qed

lemma part_eq:
  "nat_of c = n \<Longrightarrow> (c \<noteq> 0 \<Longrightarrow> nat_of d = e) \<Longrightarrow>
   take n (drop e xs) = take (nat_of c) (drop (nat_of d) xs)"
  by (cases "c = 0") auto

lemma runs_0 [simp]:
  fixes a :: "'a array" and v :: "'a iface"
  shows "runs a p 0 = []" and "vruns v q 0 = []"
  by (induction a p "0 :: nat" and v q "0 :: nat" rule: runs_vruns.induct)
     (simp_all split: option.splits)

lemma runs_part_eq:
  assumes "nat_of c = n" "c \<noteq> 0 \<Longrightarrow> nat_of d = e"
  shows "vruns v e n = vruns v (nat_of d) (nat_of c)"
    and "runs a e n = runs a (nat_of d) (nat_of c)"
  using assms by (cases "c = 0"; auto)+

subsection \<open>Valid nodes\<close>

lemma valid_Count_nonneg: "valid a \<Longrightarrow> 0 \<le> sint (Count a)"
  by (cases a) simp

lemma valid_slice_nat:
  assumes "valid (Array limit count v aoff rc None)"
  shows "nat_of aoff + nat_of count \<le> length (vcontent v)"
proof -
  from assms have "0 \<le> sint aoff" "0 \<le> sint count"
    "sint aoff + sint count \<le> int (length (vcontent v))" by simp_all
  then show ?thesis unfolding nat_of_def by arith
qed

lemma valid_splice_nat:
  assumes "valid (Array limit count v aoff rc (Some r))"
  shows "nat_of aoff + nat_of (Count r) \<le> nat_of count"
    and "nat_of count + nat_of rc \<le> length (vcontent v) + nat_of (Count r)"
    and "nat_of aoff + nat_of rc \<le> length (vcontent v)"
proof -
  from assms have *: "0 \<le> sint aoff" "0 \<le> sint count" "0 \<le> sint rc"
    "sint aoff + sint (Count r) \<le> sint count"
    "sint count - sint (Count r) + sint rc \<le> int (length (vcontent v))" by simp_all
  from assms have "valid r" by simp
  then have **: "0 \<le> sint (Count r)" by (rule valid_Count_nonneg)
  show "nat_of aoff + nat_of (Count r) \<le> nat_of count"
    using * ** unfolding nat_of_def by arith
  show "nat_of count + nat_of rc \<le> length (vcontent v) + nat_of (Count r)"
    using * ** unfolding nat_of_def by arith
  show "nat_of aoff + nat_of rc \<le> length (vcontent v)"
    using * ** unfolding nat_of_def by arith
qed

lemma length_content:
  fixes a :: "'a array" and v :: "'a iface"
  shows "valid a \<Longrightarrow> length (content a) = nat_of (Count a)"
    and "valid_v v \<Longrightarrow> length (vcontent v) < 2 ^ 63"
proof (induction a and v rule: content_vcontent.induct)
  case (1 limit count v aoff rc rep)
  note va = \<open>valid (Array limit count v aoff rc rep)\<close>
  show ?case
  proof (cases rep)
    case None
    with va have "nat_of aoff + nat_of count \<le> length (vcontent v)"
      by (intro valid_slice_nat) simp
    with None show ?thesis by simp
  next
    case (Some r)
    with va have "valid r" by simp
    with 1 Some have r: "length (content r) = nat_of (Count r)" by simp
    note n = valid_splice_nat [OF va [unfolded Some]]
    have "nat_of count \<le> length (take (nat_of aoff) (vcontent v) @ content r @
             drop (nat_of aoff + nat_of rc) (vcontent v))"
      using n r by simp
    with Some show ?thesis by simp
  qed
next
  case (4 a)
  then have "length (content a) = nat_of (Count a)" by simp
  moreover have "nat_of (Count a) < 2 ^ 63"
    using sint_less64 [of "Count a"] unfolding nat_of_def by simp
  ultimately show ?case by simp
qed simp_all

lemma bound_valid: "valid_v v \<Longrightarrow> bound v = int (length (vcontent v))"
proof (cases v)
  case (Arr a)
  assume "valid_v v"
  with Arr have "valid a" by simp
  from length_content(1) [OF this] valid_Count_nonneg [OF this] Arr
  show ?thesis by (simp add: nat_of_int)
qed simp_all

subsection \<open>Runs\<close>

lemma andThen_ok:
  "snd r1 = None \<Longrightarrow> andThen r1 r2 = (fst r1 @ fst r2, snd r2)"
  by (simp add: andThen_def)

lemma snd_andThen: "snd r1 = None \<Longrightarrow> snd (andThen r1 r2) = snd r2"
  by (simp add: andThen_ok)

lemma visits_andThen:
  "snd r1 = None \<Longrightarrow> visits (andThen r1 r2) = visits r1 @ visits r2"
  by (simp add: andThen_ok visits_def)

lemma requests_andThen:
  "snd r1 = None \<Longrightarrow> requests (andThen r1 r2) = requests r1 @ requests r2"
  by (simp add: andThen_ok requests_def)

lemma enters_andThen:
  "snd r1 = None \<Longrightarrow> enters (andThen r1 r2) = enters r1 @ enters r2"
  by (simp add: andThen_ok enters_def)

lemma segments_andThen:
  "snd r1 = None \<Longrightarrow> segments (andThen r1 r2) = segments r1 @ segments r2"
  by (simp add: segments_def visits_andThen)

lemma enter_simps [simp]:
  "snd (enter t off cnt) = None" "visits (enter t off cnt) = []"
  "requests (enter t off cnt) = []" "enters (enter t off cnt) = [(t, off, cnt)]"
  "segments (enter t off cnt) = []"
  by (simp_all add: enter_def visits_def requests_def enters_def segments_def)

lemma empty_run_simps [simp]:
  "visits ([], st) = []" "requests ([], st) = []" "enters ([], st) = []"
  "segments ([], st) = []"
  by (simp_all add: visits_def requests_def enters_def segments_def)

lemma orderly_andThen:
  "orderly S r1 \<Longrightarrow> orderly S r2 \<Longrightarrow> orderly S (andThen r1 r2)"
  unfolding orderly_def
  by (auto simp: snd_andThen visits_andThen requests_andThen enters_andThen)

lemma orderly_mono: "orderly S r \<Longrightarrow> S \<subseteq> S' \<Longrightarrow> orderly S' r"
  unfolding orderly_def by fast

lemma orderly_enter: "window_ok off cnt (bound t) \<Longrightarrow> orderly S (enter t off cnt)"
  by (simp add: orderly_def)

lemma orderly_empty [simp]: "orderly S ([], None)"
  by (simp add: orderly_def)

lemma good_enter:
  "good S r off cnt xs qs \<Longrightarrow> window_ok off' cnt' (bound t) \<Longrightarrow>
   good S (andThen (enter t off' cnt') r) off cnt xs qs"
  by (simp add: good_def orderly_andThen orderly_enter segments_andThen requests_andThen)

lemma good_empty: "good S (andThen (enter t off 0) ([], None)) off 0 xs []"
  by (simp add: good_def orderly_andThen orderly_enter segments_andThen requests_andThen
      window_ok_def)

lemma orderly_seq3:
  assumes "orderly S1 r1" "orderly S2 r2" "orderly S3 r3"
    and "S1 \<subseteq> S" "S2 \<subseteq> S" "S3 \<subseteq> S"
  shows "orderly S (andThen r1 (andThen r2 r3))"
  using assms by (intro orderly_andThen) (auto intro: orderly_mono)

lemma good_seq3:
  assumes "good S1 r1 o1 c1 xs qs1" "good S2 r2 o2 c2 ys qs2" "good S3 r3 o3 c3 zs qs3"
    and "S1 \<subseteq> S" "S2 \<subseteq> S" "S3 \<subseteq> S"
  shows "orderly S (andThen r1 (andThen r2 r3))"
    and "segments (andThen r1 (andThen r2 r3)) =
         take (nat_of c1) (drop (nat_of o1) xs) @ take (nat_of c2) (drop (nat_of o2) ys) @
         take (nat_of c3) (drop (nat_of o3) zs)"
    and "map run_of (requests (andThen r1 (andThen r2 r3))) = qs1 @ qs2 @ qs3"
proof -
  from assms have o: "orderly S r1" "orderly S r2" "orderly S r3"
    by (auto simp: good_def intro: orderly_mono)
  then show "orderly S (andThen r1 (andThen r2 r3))"
    by (intro orderly_andThen)
  from o have "snd r1 = None" "snd r2 = None" by (simp_all add: orderly_def)
  then show "segments (andThen r1 (andThen r2 r3)) =
         take (nat_of c1) (drop (nat_of o1) xs) @ take (nat_of c2) (drop (nat_of o2) ys) @
         take (nat_of c3) (drop (nat_of o3) zs)"
    and "map run_of (requests (andThen r1 (andThen r2 r3))) = qs1 @ qs2 @ qs3"
    using assms(1-3) by (simp_all add: good_def segments_andThen requests_andThen)
qed

lemma window_okD:
  "window_ok off cnt n \<Longrightarrow> cnt \<noteq> 0 \<Longrightarrow>
     0 \<le> sint off \<and> 0 \<le> sint cnt \<and> sint off + sint cnt \<le> n"
  by (simp add: window_ok_def in_bounds_def)

lemma window_okI:
  "(cnt \<noteq> 0 \<Longrightarrow> 0 \<le> sint off \<and> 0 \<le> sint cnt \<and> sint off + sint cnt \<le> n) \<Longrightarrow>
   window_ok off cnt n"
  by (auto simp: window_ok_def in_bounds_def)

subsection \<open>The traversal of a payload\<close>

lemma Slicer_Slice_ok:
  assumes "length s < 2 ^ 63" "0 \<le> sint off" "0 \<le> sint cnt"
    "sint off + sint cnt \<le> int (length s)"
  shows "Slicer_Slice s off cnt = Inr (take (nat_of cnt) (drop (nat_of off) s))"
proof -
  have "sint (off + cnt) = sint off + sint cnt"
    using assms by (intro sint_add64) auto
  moreover have "nat (sint off + sint cnt) - nat (sint off) = nat (sint cnt)"
    using assms by arith
  ultimately show ?thesis
    using assms by (simp add: Slicer_Slice_def Let_def word_sle_eq nat_of_def)
qed

lemma forEach_Slicer:
  assumes "length s < 2 ^ 63" "window_ok off cnt (int (length s))"
  shows "good {s} (forEach (Slicer s) off cnt) off cnt s
           (vruns (Slicer s) (nat_of off) (nat_of cnt))"
proof (cases "cnt = 0")
  case True
  then show ?thesis using good_empty by (simp add: forEach.simps)
next
  case False
  note w = window_okD [OF assms(2) False]
  have n0: "nat_of cnt \<noteq> 0"
    using False w unfolding nat_of_def eq0_sint64 by linarith
  from w assms have "Slicer_Slice s off cnt = Inr (take (nat_of cnt) (drop (nat_of off) s))"
    by (intro Slicer_Slice_ok) auto
  moreover have "good {s} ([Request s off cnt, Visit (take (nat_of cnt) (drop (nat_of off) s)) cnt], None)
     off cnt s (vruns (Slicer s) (nat_of off) (nat_of cnt))"
    using False w n0
    by (simp add: good_def orderly_def visits_def requests_def enters_def segments_def
        slice_of_def in_bounds_def run_of_def)
  ultimately show ?thesis using False assms(2)
    by (simp add: forEach.simps good_enter)
qed

subsection \<open>The traversal of a node without replacement\<close>

lemma slice_view_window:
  fixes v :: "'a iface"
  assumes va: "valid (Array limit count v aoff rc None)"
    and win: "window_ok off cnt (sint count)" and nz: "cnt \<noteq> 0"
  shows "window_ok (aoff + off) cnt (int (length (vcontent v)))"
proof -
  from va have w: "0 \<le> sint aoff" "0 \<le> sint count"
    "sint aoff + sint count \<le> int (length (vcontent v))" "valid_v v" by simp_all
  from window_okD [OF win nz]
  have q: "0 \<le> sint off" "0 \<le> sint cnt" "sint off + sint cnt \<le> sint count"
    by simp_all
  have lv: "int (length (vcontent v)) < 2 ^ 63"
    using length_content(2) [OF w(4)] by simp
  have "sint aoff + sint off < 2 ^ 63" using w q lv by linarith
  note s = nat_of_add [OF w(1) q(1) this]
  show ?thesis using s(1) w q by (intro window_okI) simp
qed

lemma forEach_slice_view:
  fixes v :: "'a iface"
  assumes va: "valid (Array limit count v aoff rc None)"
    and win: "window_ok off cnt (sint count)" and nz: "cnt \<noteq> 0"
    and ih: "window_ok (aoff + off) cnt (int (length (vcontent v))) \<Longrightarrow>
               good S r (aoff + off) cnt (vcontent v)
                 (vruns v (nat_of (aoff + off)) (nat_of cnt))"
  shows "good S r off cnt (content (Array limit count v aoff rc None))
           (runs (Array limit count v aoff rc None) (nat_of off) (nat_of cnt))"
proof -
  from va have w: "0 \<le> sint aoff" "0 \<le> sint count"
    "sint aoff + sint count \<le> int (length (vcontent v))" "valid_v v" by simp_all
  from window_okD [OF win nz]
  have q: "0 \<le> sint off" "0 \<le> sint cnt" "sint off + sint cnt \<le> sint count"
    by simp_all
  have lv: "int (length (vcontent v)) < 2 ^ 63"
    using length_content(2) [OF w(4)] by simp
  have "sint aoff + sint off < 2 ^ 63" using w q lv by linarith
  note s = nat_of_add [OF w(1) q(1) this]
  have "window_ok (aoff + off) cnt (int (length (vcontent v)))"
    using s(1) w q by (intro window_okI) simp
  from ih [OF this] have g: "good S r (aoff + off) cnt (vcontent v)
      (vruns v (nat_of (aoff + off)) (nat_of cnt))" .
  have oc: "nat_of off + nat_of cnt \<le> nat_of count"
    using q w(2) unfolding nat_of_def by linarith
  have "take (nat_of cnt) (drop (nat_of off) (take (nat_of count) (drop (nat_of aoff) (vcontent v)))) =
        take (nat_of cnt) (drop (nat_of aoff + nat_of off) (vcontent v))"
    using oc by (simp add: drop_take min_def add.commute)
  then show ?thesis using g by (simp add: good_def s(2))
qed

subsection \<open>The traversal of a node with a replacement\<close>

lemma forEach_splice:
  fixes v :: "'a iface"
  assumes va: "valid (Array limit count v aoff rc (Some r))"
    and ts: "sint aoff + sint (Count r) + sint count < 2 ^ 63"
    and win: "window_ok off cnt (sint count)" and nz: "cnt \<noteq> 0"
    and i1: "intersect off cnt 0 aoff = (o1, c1)"
    and i2: "intersect off cnt aoff (Count r) = (o2, c2)"
    and i3: "intersect off cnt (aoff + Count r) count = (o3, c3)"
    and ih1: "window_ok o1 c1 (int (length (vcontent v))) \<Longrightarrow>
                good (vpayloads v) r1 o1 c1 (vcontent v) (vruns v (nat_of o1) (nat_of c1))"
    and ih2: "window_ok (o2 - aoff) c2 (sint (Count r)) \<Longrightarrow>
                good (payloads r) r2 (o2 - aoff) c2 (content r)
                  (runs r (nat_of (o2 - aoff)) (nat_of c2))"
    and ih3: "window_ok (o3 - Count r + rc) c3 (int (length (vcontent v))) \<Longrightarrow>
                good (vpayloads v) r3 (o3 - Count r + rc) c3 (vcontent v)
                  (vruns v (nat_of (o3 - Count r + rc)) (nat_of c3))"
  shows "good (payloads (Array limit count v aoff rc (Some r)))
           (andThen r1 (andThen r2 r3)) off cnt (content (Array limit count v aoff rc (Some r)))
           (runs (Array limit count v aoff rc (Some r)) (nat_of off) (nat_of cnt))"
proof -
  define V where "V = vcontent v"
  define R where "R = content r"
  from va ts have w: "0 \<le> sint aoff" "0 \<le> sint count" "0 \<le> sint rc"
    "sint aoff + sint (Count r) \<le> sint count"
    "sint count - sint (Count r) + sint rc \<le> int (length V)"
    "sint aoff + sint (Count r) + sint count < 2 ^ 63" and vr: "valid r" and vv: "valid_v v"
    by (simp_all add: V_def)
  from vr have m0: "0 \<le> sint (Count r)" by (rule valid_Count_nonneg)
  from vr have lenR: "length R = nat_of (Count r)" unfolding R_def by (rule length_content)
  note n = valid_splice_nat [OF va, folded V_def]
  from window_okD [OF win nz]
  have q: "0 \<le> sint off" "0 \<le> sint cnt" "sint off + sint cnt \<le> sint count"
    by simp_all
  have cb: "sint count < 2 ^ 63" by (rule sint_less64)
  have oc: "nat_of off + nat_of cnt \<le> nat_of count"
    using q w(2) unfolding nat_of_def by linarith
  \<comment> \<open>the head zone\<close>
  have h0: "(0::int) \<le> sint (0::int64)" "sint (0::int64) + sint aoff < 2 ^ 63"
    using w cb m0 by simp_all
  have qb: "sint off + sint cnt < 2 ^ 63" using q cb by linarith
  note p1 = intersect_nat [OF q(1) q(2) h0(1) w(1) qb h0(2) i1]
  have c1: "nat_of c1 = min (nat_of off + nat_of cnt) (nat_of aoff) - nat_of off"
    using p1(1) by simp
  have o1: "c1 \<noteq> 0 \<Longrightarrow> nat_of o1 = nat_of off" using p1(2) by simp
  have win1: "window_ok o1 c1 (int (length V))"
  proof (rule window_okI)
    assume nz1: "c1 \<noteq> 0"
    have "sint o1 + sint c1 \<le> sint aoff" using p1(5) [OF nz1] by simp
    then show "0 \<le> sint o1 \<and> 0 \<le> sint c1 \<and> sint o1 + sint c1 \<le> int (length V)"
      using p1(3) p1(4) [OF nz1] w m0 by simp
  qed
  \<comment> \<open>the replacement\<close>
  have mb: "sint aoff + sint (Count r) < 2 ^ 63" using w cb by linarith
  note p2 = intersect_nat [OF q(1) q(2) w(1) m0 qb mb i2]
  have c2: "nat_of c2 = min (nat_of off + nat_of cnt) (nat_of aoff + nat_of (Count r)) -
              max (nat_of off) (nat_of aoff)"
    using p2(1) .
  have d2: "sint (o2 - aoff) = sint o2 - sint aoff" if "c2 \<noteq> 0"
  proof (rule sint_sub64)
    have "sint aoff \<le> sint o2" using p2(6) [OF that] by simp
    then show "- (2 ^ 63) \<le> sint o2 - sint aoff" by simp
    have "sint o2 < 2 ^ 63" by (rule sint_less64)
    then show "sint o2 - sint aoff < 2 ^ 63" using w(1) by linarith
  qed
  have o2: "nat_of (o2 - aoff) = max (nat_of off) (nat_of aoff) - nat_of aoff" if "c2 \<noteq> 0"
  proof -
    have "nat_of (o2 - aoff) = nat (sint o2 - sint aoff)"
      using d2 [OF that] by (simp add: nat_of_def)
    also have "\<dots> = nat_of o2 - nat_of aoff"
      using p2(4) [OF that] w(1) unfolding nat_of_def by linarith
    finally show ?thesis using p2(2) [OF that] by simp
  qed
  have win2: "window_ok (o2 - aoff) c2 (sint (Count r))"
  proof (rule window_okI)
    assume nz2: "c2 \<noteq> 0"
    have "sint o2 + sint c2 \<le> sint aoff + sint (Count r)" using p2(5) [OF nz2] by simp
    moreover have "sint aoff \<le> sint o2" using p2(6) [OF nz2] by simp
    ultimately show "0 \<le> sint (o2 - aoff) \<and> 0 \<le> sint c2 \<and>
        sint (o2 - aoff) + sint c2 \<le> sint (Count r)"
      using p2(3) d2 [OF nz2] by simp
  qed
  \<comment> \<open>the tail zone\<close>
  note am = nat_of_add [OF w(1) m0 mb]
  have t0: "0 \<le> sint (aoff + Count r)" "sint (aoff + Count r) + sint count < 2 ^ 63"
    using am(1) w m0 by simp_all
  note p3 = intersect_nat [OF q(1) q(2) t0(1) w(2) qb t0(2) i3]
  have c3: "nat_of c3 = nat_of off + nat_of cnt - max (nat_of off) (nat_of aoff + nat_of (Count r))"
    using p3(1) oc unfolding am(2) by simp
  have e3: "sint o3 + sint c3 = sint off + sint cnt" if "c3 \<noteq> 0"
    using p3(5) [OF that] q w m0 unfolding am(1) by simp
  have s3: "sint o3 = max (sint off) (sint aoff + sint (Count r))" if "c3 \<noteq> 0"
    using p3(6) [OF that] unfolding am(1) .
  have d3a: "sint (o3 - Count r) = sint o3 - sint (Count r)" if "c3 \<noteq> 0"
    using p3(4) [OF that] m0 sint_less64 [of o3] sint_less64 [of "Count r"]
    by (intro sint_sub64) simp_all
  have d3: "sint (o3 - Count r + rc) = sint o3 - sint (Count r) + sint rc" if "c3 \<noteq> 0"
  proof -
    have "sint o3 \<le> sint count" using e3 [OF that] p3(3) q by linarith
    then have "sint o3 - sint (Count r) + sint rc < 2 ^ 63"
      using w(5) length_content(2) [OF vv] unfolding V_def by simp
    moreover have "0 \<le> sint o3 - sint (Count r)" using s3 [OF that] w(1) by linarith
    ultimately show ?thesis using w(3) d3a [OF that] by (intro sint_add64 [THEN trans]) simp_all
  qed
  have o3: "nat_of (o3 - Count r + rc) =
      max (nat_of off) (nat_of aoff + nat_of (Count r)) - nat_of (Count r) + nat_of rc"
    if "c3 \<noteq> 0"
  proof -
    have "nat_of o3 = max (nat_of off) (nat_of aoff + nat_of (Count r))"
      using p3(2) [OF that] unfolding am(2) .
    moreover have "nat_of (o3 - Count r + rc) = nat_of o3 - nat_of (Count r) + nat_of rc"
      using d3 [OF that] s3 [OF that] w(1,3) m0 q(1) unfolding nat_of_def by linarith
    ultimately show ?thesis by simp
  qed
  have win3: "window_ok (o3 - Count r + rc) c3 (int (length V))"
  proof (rule window_okI)
    assume nz3: "c3 \<noteq> 0"
    have "0 \<le> sint o3 - sint (Count r) + sint rc" using s3 [OF nz3] w(1,3) by linarith
    moreover have "sint o3 - sint (Count r) + sint rc + sint c3 \<le> int (length V)"
      using e3 [OF nz3] q(3) w(5) by linarith
    ultimately show "0 \<le> sint (o3 - Count r + rc) \<and> 0 \<le> sint c3 \<and>
        sint (o3 - Count r + rc) + sint c3 \<le> int (length V)"
      using p3(3) d3 [OF nz3] by simp
  qed
  have sub: "vpayloads v \<subseteq> payloads (Array limit count v aoff rc (Some r))"
    "payloads r \<subseteq> payloads (Array limit count v aoff rc (Some r))"
    by auto
  note g = good_seq3 [OF ih1 [OF win1 [unfolded V_def]] ih2 [OF win2]
      ih3 [OF win3 [unfolded V_def]] sub(1) sub(2) sub(1)]
  have "take (nat_of cnt) (drop (nat_of off) (content (Array limit count v aoff rc (Some r)))) =
        take (nat_of cnt) (drop (nat_of off) (take (nat_of count)
          (take (nat_of aoff) V @ R @ drop (nat_of aoff + nat_of rc) V)))"
    by (simp add: V_def R_def)
  also have "\<dots> =
         take (min (nat_of off + nat_of cnt) (nat_of aoff) - nat_of off) (drop (nat_of off) V) @
         take (min (nat_of off + nat_of cnt) (nat_of aoff + nat_of (Count r)) -
               max (nat_of off) (nat_of aoff))
           (drop (max (nat_of off) (nat_of aoff) - nat_of aoff) R) @
         take (nat_of off + nat_of cnt - max (nat_of off) (nat_of aoff + nat_of (Count r)))
           (drop (max (nat_of off) (nat_of aoff + nat_of (Count r)) - nat_of (Count r) +
                  nat_of rc) V)"
    by (rule splice_window [OF lenR n(1) n(2) oc])
  also have "\<dots> = take (nat_of c1) (drop (nat_of o1) V) @
        take (nat_of c2) (drop (nat_of (o2 - aoff)) R) @
        take (nat_of c3) (drop (nat_of (o3 - Count r + rc)) V)"
  proof -
    have 1: "take (min (nat_of off + nat_of cnt) (nat_of aoff) - nat_of off) (drop (nat_of off) V) =
             take (nat_of c1) (drop (nat_of o1) V)"
      by (rule part_eq [OF c1 o1])
    have 2: "take (min (nat_of off + nat_of cnt) (nat_of aoff + nat_of (Count r)) -
               max (nat_of off) (nat_of aoff))
           (drop (max (nat_of off) (nat_of aoff) - nat_of aoff) R) =
           take (nat_of c2) (drop (nat_of (o2 - aoff)) R)"
      by (rule part_eq [OF c2 o2])
    have 3: "take (nat_of off + nat_of cnt - max (nat_of off) (nat_of aoff + nat_of (Count r)))
           (drop (max (nat_of off) (nat_of aoff + nat_of (Count r)) - nat_of (Count r) +
                  nat_of rc) V) =
           take (nat_of c3) (drop (nat_of (o3 - Count r + rc)) V)"
      by (rule part_eq [OF c3 o3])
    show ?thesis unfolding 1 2 3 ..
  qed
  finally have seg: "take (nat_of cnt) (drop (nat_of off)
        (content (Array limit count v aoff rc (Some r)))) =
      take (nat_of c1) (drop (nat_of o1) V) @
      take (nat_of c2) (drop (nat_of (o2 - aoff)) R) @
      take (nat_of c3) (drop (nat_of (o3 - Count r + rc)) V)" .
  have "runs (Array limit count v aoff rc (Some r)) (nat_of off) (nat_of cnt) =
      vruns v (nat_of off) (min (nat_of off + nat_of cnt) (nat_of aoff) - nat_of off) @
      runs r (max (nat_of off) (nat_of aoff) - nat_of aoff)
        (min (nat_of off + nat_of cnt) (nat_of aoff + nat_of (Count r)) -
         max (nat_of off) (nat_of aoff)) @
      vruns v (max (nat_of off) (nat_of aoff + nat_of (Count r)) - nat_of (Count r) + nat_of rc)
        (nat_of off + nat_of cnt - max (nat_of off) (nat_of aoff + nat_of (Count r)))"
    by simp
  also have "\<dots> = vruns v (nat_of o1) (nat_of c1) @
      runs r (nat_of (o2 - aoff)) (nat_of c2) @
      vruns v (nat_of (o3 - Count r + rc)) (nat_of c3)"
  proof -
    have 1: "vruns v (nat_of off) (min (nat_of off + nat_of cnt) (nat_of aoff) - nat_of off) =
             vruns v (nat_of o1) (nat_of c1)"
      by (rule runs_part_eq(1) [OF c1 o1])
    have 2: "runs r (max (nat_of off) (nat_of aoff) - nat_of aoff)
        (min (nat_of off + nat_of cnt) (nat_of aoff + nat_of (Count r)) -
         max (nat_of off) (nat_of aoff)) = runs r (nat_of (o2 - aoff)) (nat_of c2)"
      by (rule runs_part_eq(2) [OF c2 o2])
    have 3: "vruns v (max (nat_of off) (nat_of aoff + nat_of (Count r)) - nat_of (Count r) +
          nat_of rc)
        (nat_of off + nat_of cnt - max (nat_of off) (nat_of aoff + nat_of (Count r))) =
        vruns v (nat_of (o3 - Count r + rc)) (nat_of c3)"
      by (rule runs_part_eq(1) [OF c3 o3])
    show ?thesis unfolding 1 2 3 ..
  qed
  finally have rs: "runs (Array limit count v aoff rc (Some r)) (nat_of off) (nat_of cnt) =
      vruns v (nat_of o1) (nat_of c1) @
      runs r (nat_of (o2 - aoff)) (nat_of c2) @
      vruns v (nat_of (o3 - Count r + rc)) (nat_of c3)" .
  show ?thesis
    unfolding good_def seg rs using g unfolding V_def R_def by simp
qed

text \<open>
  The windows passed on by a node with a replacement are acceptable also where the sum
  formed for the tail zone wraps around: the tail zone is then passed on empty.
\<close>

lemma splice_windows:
  fixes v :: "'a iface"
  assumes va: "valid (Array limit count v aoff rc (Some r))"
    and win: "window_ok off cnt (sint count)" and nz: "cnt \<noteq> 0"
    and i1: "intersect off cnt 0 aoff = (o1, c1)"
    and i2: "intersect off cnt aoff (Count r) = (o2, c2)"
    and i3: "intersect off cnt (aoff + Count r) count = (o3, c3)"
  shows "window_ok o1 c1 (int (length (vcontent v)))"
    and "window_ok (o2 - aoff) c2 (sint (Count r))"
    and "window_ok (o3 - Count r + rc) c3 (int (length (vcontent v)))"
proof -
  define V where "V = vcontent v"
  from va have w: "0 \<le> sint aoff" "0 \<le> sint count" "0 \<le> sint rc"
    "sint aoff + sint (Count r) \<le> sint count"
    "sint count - sint (Count r) + sint rc \<le> int (length V)"
    and vr: "valid r" and vv: "valid_v v"
    by (simp_all add: V_def)
  from vr have m0: "0 \<le> sint (Count r)" by (rule valid_Count_nonneg)
  from window_okD [OF win nz]
  have q: "0 \<le> sint off" "0 \<le> sint cnt" "sint off + sint cnt \<le> sint count"
    by simp_all
  have cb: "sint count < 2 ^ 63" by (rule sint_less64)
  have h0: "(0::int) \<le> sint (0::int64)" "sint (0::int64) + sint aoff < 2 ^ 63"
    using w cb m0 by simp_all
  have qb: "sint off + sint cnt < 2 ^ 63" using q cb by linarith
  note p1 = intersect_nat [OF q(1) q(2) h0(1) w(1) qb h0(2) i1]
  show "window_ok o1 c1 (int (length (vcontent v)))"
  proof (rule window_okI)
    assume nz1: "c1 \<noteq> 0"
    have "sint o1 + sint c1 \<le> sint aoff" using p1(5) [OF nz1] by simp
    then show "0 \<le> sint o1 \<and> 0 \<le> sint c1 \<and> sint o1 + sint c1 \<le> int (length (vcontent v))"
      using p1(3) p1(4) [OF nz1] w m0 unfolding V_def by simp
  qed
  have mb: "sint aoff + sint (Count r) < 2 ^ 63" using w cb by linarith
  note p2 = intersect_nat [OF q(1) q(2) w(1) m0 qb mb i2]
  have d2: "sint (o2 - aoff) = sint o2 - sint aoff" if "c2 \<noteq> 0"
  proof (rule sint_sub64)
    have "sint aoff \<le> sint o2" using p2(6) [OF that] by simp
    then show "- (2 ^ 63) \<le> sint o2 - sint aoff" by simp
    have "sint o2 < 2 ^ 63" by (rule sint_less64)
    then show "sint o2 - sint aoff < 2 ^ 63" using w(1) by linarith
  qed
  show "window_ok (o2 - aoff) c2 (sint (Count r))"
  proof (rule window_okI)
    assume nz2: "c2 \<noteq> 0"
    have "sint o2 + sint c2 \<le> sint aoff + sint (Count r)" using p2(5) [OF nz2] by simp
    moreover have "sint aoff \<le> sint o2" using p2(6) [OF nz2] by simp
    ultimately show "0 \<le> sint (o2 - aoff) \<and> 0 \<le> sint c2 \<and>
        sint (o2 - aoff) + sint c2 \<le> sint (Count r)"
      using p2(3) d2 [OF nz2] by simp
  qed
  note am = nat_of_add [OF w(1) m0 mb]
  show "window_ok (o3 - Count r + rc) c3 (int (length (vcontent v)))"
  proof (cases "sint aoff + sint (Count r) + sint count < 2 ^ 63")
    case True
    have t0: "0 \<le> sint (aoff + Count r)" "sint (aoff + Count r) + sint count < 2 ^ 63"
      using am(1) w m0 True by simp_all
    note p3 = intersect_nat [OF q(1) q(2) t0(1) w(2) qb t0(2) i3]
    have e3: "sint o3 + sint c3 = sint off + sint cnt" if "c3 \<noteq> 0"
      using p3(5) [OF that] q w m0 unfolding am(1) by simp
    have s3: "sint o3 = max (sint off) (sint aoff + sint (Count r))" if "c3 \<noteq> 0"
      using p3(6) [OF that] unfolding am(1) .
    have d3a: "sint (o3 - Count r) = sint o3 - sint (Count r)" if "c3 \<noteq> 0"
      using p3(4) [OF that] m0 sint_less64 [of o3] sint_less64 [of "Count r"]
      by (intro sint_sub64) simp_all
    have d3: "sint (o3 - Count r + rc) = sint o3 - sint (Count r) + sint rc" if "c3 \<noteq> 0"
    proof -
      have "sint o3 \<le> sint count" using e3 [OF that] p3(3) q by linarith
      then have "sint o3 - sint (Count r) + sint rc < 2 ^ 63"
        using w(5) length_content(2) [OF vv] unfolding V_def by simp
      moreover have "0 \<le> sint o3 - sint (Count r)" using s3 [OF that] w(1) by linarith
      ultimately show ?thesis using w(3) d3a [OF that] by (intro sint_add64 [THEN trans]) simp_all
    qed
    show ?thesis
    proof (rule window_okI)
      assume nz3: "c3 \<noteq> 0"
      have "0 \<le> sint o3 - sint (Count r) + sint rc" using s3 [OF nz3] w(1,3) by linarith
      moreover have "sint o3 - sint (Count r) + sint rc + sint c3 \<le> int (length V)"
        using e3 [OF nz3] q(3) w(5) by linarith
      ultimately show "0 \<le> sint (o3 - Count r + rc) \<and> 0 \<le> sint c3 \<and>
          sint (o3 - Count r + rc) + sint c3 \<le> int (length (vcontent v))"
        using p3(3) d3 [OF nz3] unfolding V_def by simp
    qed
  next
    case False
    then have "2 ^ 63 \<le> sint (aoff + Count r) + sint count"
      unfolding am(1) by simp
    from intersect_wrapped [OF q(1) q(2) qb this] i3 have "c3 = 0" by simp
    then show ?thesis by (simp add: window_ok_def)
  qed
qed

subsection \<open>The traversal of any valid node\<close>

text \<open>Every valid node is traversed in order, whether or not a tail sum wraps.\<close>

lemma traversal_orderly:
  fixes v :: "'a iface" and a :: "'a array"
  shows "valid_v v \<Longrightarrow> window_ok off cnt (int (length (vcontent v))) \<Longrightarrow>
           orderly (vpayloads v) (forEach v off cnt)"
    and "valid a \<Longrightarrow> window_ok off' cnt' (sint (Count a)) \<Longrightarrow>
           orderly (payloads a) (Array_forEach a off' cnt')"
proof (induction v off cnt and a off' cnt' rule: forEach_Array_forEach.induct)
  case (1 v off cnt)
  note vv = \<open>valid_v v\<close> and win = \<open>window_ok off cnt (int (length (vcontent v)))\<close>
  have en: "orderly (vpayloads v) (enter v off cnt)"
    using win bound_valid [OF vv] by (intro orderly_enter) simp
  show ?case
  proof (cases "cnt = 0")
    case True
    then show ?thesis using en by (simp add: forEach.simps orderly_andThen)
  next
    case False
    show ?thesis
    proof (cases v)
      case NilValue
      with win False have "sint cnt = 0" by (simp add: window_ok_def in_bounds_def)
      with False show ?thesis by (simp add: eq0_sint64)
    next
      case (Slicer s)
      with vv win have "good {s} (forEach (Slicer s) off cnt) off cnt s
           (vruns (Slicer s) (nat_of off) (nat_of cnt))"
        by (intro forEach_Slicer) simp_all
      with Slicer show ?thesis by (simp add: good_def)
    next
      case (Arr a)
      with vv have va: "valid a" by simp
      have b: "int (length (vcontent v)) = sint (Count a)"
        using bound_valid [OF vv] Arr by simp
      have w: "window_ok off cnt (sint (Count a))" using win b by simp
      from 1(1) [OF False Arr va w] en Arr
      have "orderly (payloads a) (andThen (enter (Arr a) off cnt) (Array_forEach a off cnt))"
        by (intro orderly_andThen) simp_all
      then show ?thesis using Arr False by (simp add: forEach.simps)
    qed
  qed
next
  case (2 limit count v aoff rc rep off cnt)
  let ?a = "Array limit count v aoff rc rep"
  note va = \<open>valid ?a\<close>
  from 2 have win: "window_ok off cnt (sint count)" by simp
  from va have vv: "valid_v v" by simp
  have en: "orderly (payloads ?a) (enter (Arr ?a) off cnt)"
    using win by (intro orderly_enter) simp
  show ?case
  proof (cases "cnt = 0")
    case True
    then show ?thesis using en by (simp add: Array_forEach.simps orderly_andThen)
  next
    case False
    show ?thesis
    proof (cases rep)
      case None
      have "window_ok (aoff + off) cnt (int (length (vcontent v)))"
        by (rule slice_view_window [OF va [unfolded None] win False])
      from 2(1) [OF False None vv this]
      have "orderly (payloads ?a) (forEach v (aoff + off) cnt)"
        using None by simp
      with en have "orderly (payloads ?a) (andThen (enter (Arr ?a) off cnt)
          (forEach v (aoff + off) cnt))"
        by (rule orderly_andThen)
      then show ?thesis using None False by (simp add: Array_forEach.simps)
    next
      case (Some r)
      obtain o1 c1 where i1: "intersect off cnt 0 aoff = (o1, c1)" by force
      obtain o2 c2 where i2: "intersect off cnt aoff (Count r) = (o2, c2)" by force
      obtain o3 c3 where i3: "intersect off cnt (aoff + Count r) count = (o3, c3)" by force
      from va Some have vr: "valid r" by simp
      note wn = splice_windows [OF va [unfolded Some] win False i1 i2 i3]
      note ih1 = 2(2) [OF False Some refl i1 [symmetric] refl i2 [symmetric] refl i3 [symmetric]
          vv wn(1)]
      note ih2 = 2(3) [OF False Some refl i1 [symmetric] refl i2 [symmetric] refl i3 [symmetric]
          vr wn(2)]
      note ih3 = 2(4) [OF False Some refl i1 [symmetric] refl i2 [symmetric] refl i3 [symmetric]
          vv wn(3)]
      have sub: "vpayloads v \<subseteq> payloads ?a" "payloads r \<subseteq> payloads ?a"
        using Some by auto
      have "orderly (payloads ?a)
              (andThen (forEach v o1 c1) (andThen (Array_forEach r (o2 - aoff) c2)
                  (forEach v (o3 - Count r + rc) c3)))"
        by (rule orderly_seq3 [OF ih1 ih2 ih3 sub(1) sub(2) sub(1)])
      with en have "orderly (payloads ?a)
          (andThen (enter (Arr ?a) off cnt)
            (andThen (forEach v o1 c1) (andThen (Array_forEach r (o2 - aoff) c2)
                  (forEach v (o3 - Count r + rc) c3))))"
        by (rule orderly_andThen)
      then show ?thesis using Some False i1 i2 i3
        by (simp add: Array_forEach.simps)
    qed
  qed
qed

text \<open>
  Where no tail sum wraps, the traversal visits exactly the window it is asked for, run
  by run.
\<close>

lemma traversal:
  fixes v :: "'a iface" and a :: "'a array"
  shows "valid_v v \<Longrightarrow> tail_fits_v v \<Longrightarrow> window_ok off cnt (int (length (vcontent v))) \<Longrightarrow>
           good (vpayloads v) (forEach v off cnt) off cnt (vcontent v)
             (vruns v (nat_of off) (nat_of cnt))"
    and "valid a \<Longrightarrow> tail_fits a \<Longrightarrow> window_ok off' cnt' (sint (Count a)) \<Longrightarrow>
           good (payloads a) (Array_forEach a off' cnt') off' cnt' (content a)
             (runs a (nat_of off') (nat_of cnt'))"
proof (induction v off cnt and a off' cnt' rule: forEach_Array_forEach.induct)
  case (1 v off cnt)
  note vv = \<open>valid_v v\<close> and tv = \<open>tail_fits_v v\<close>
    and win = \<open>window_ok off cnt (int (length (vcontent v)))\<close>
  show ?case
  proof (cases "cnt = 0")
    case True
    then show ?thesis using good_empty by (simp add: forEach.simps)
  next
    case False
    show ?thesis
    proof (cases v)
      case NilValue
      with win False have "sint cnt = 0" by (simp add: window_ok_def in_bounds_def)
      with False show ?thesis by (simp add: eq0_sint64)
    next
      case (Slicer s)
      with vv win forEach_Slicer [of s off cnt] show ?thesis by simp
    next
      case (Arr a)
      with vv tv have va: "valid a" and ta: "tail_fits a" by simp_all
      have b: "int (length (vcontent v)) = sint (Count a)"
        using bound_valid [OF vv] Arr by simp
      have w: "window_ok off cnt (sint (Count a))" using win b by simp
      from 1(1) [OF False Arr va ta w]
      have "good (payloads a) (andThen (enter (Arr a) off cnt) (Array_forEach a off cnt))
              off cnt (content a) (runs a (nat_of off) (nat_of cnt))"
        by (rule good_enter) (use w in simp)
      then show ?thesis using Arr False by (simp add: forEach.simps)
    qed
  qed
next
  case (2 limit count v aoff rc rep off cnt)
  note va = \<open>valid (Array limit count v aoff rc rep)\<close>
    and ta = \<open>tail_fits (Array limit count v aoff rc rep)\<close>
  from 2 have win: "window_ok off cnt (sint count)" by simp
  from va ta have vv: "valid_v v" and tv: "tail_fits_v v" by simp_all
  have lb: "int (length (vcontent v)) = bound v" using bound_valid [OF vv] by simp
  have en: "window_ok off cnt (bound (Arr (Array limit count v aoff rc rep)))"
    using win by simp
  show ?case
  proof (cases "cnt = 0")
    case True
    then show ?thesis using good_empty by (simp add: Array_forEach.simps)
  next
    case False
    show ?thesis
    proof (cases rep)
      case None
      have "good (vpayloads v) (forEach v (aoff + off) cnt) off cnt
              (content (Array limit count v aoff rc None))
              (runs (Array limit count v aoff rc None) (nat_of off) (nat_of cnt))"
        by (rule forEach_slice_view [OF va [unfolded None] win False])
           (rule 2(1) [OF False None vv tv])
      then have "good (payloads (Array limit count v aoff rc None))
          (andThen (enter (Arr (Array limit count v aoff rc None)) off cnt)
             (forEach v (aoff + off) cnt)) off cnt (content (Array limit count v aoff rc None))
             (runs (Array limit count v aoff rc None) (nat_of off) (nat_of cnt))"
        using en None by (intro good_enter) simp_all
      then show ?thesis using None False by (simp add: Array_forEach.simps)
    next
      case (Some r)
      obtain o1 c1 where i1: "intersect off cnt 0 aoff = (o1, c1)" by force
      obtain o2 c2 where i2: "intersect off cnt aoff (Count r) = (o2, c2)" by force
      obtain o3 c3 where i3: "intersect off cnt (aoff + Count r) count = (o3, c3)" by force
      from va ta Some have vr: "valid r" and tr: "tail_fits r"
        and ts: "sint aoff + sint (Count r) + sint count < 2 ^ 63" by simp_all
      note ih1 = 2(2) [OF False Some refl i1 [symmetric] refl i2 [symmetric] refl i3 [symmetric]
          vv tv]
      note ih2 = 2(3) [OF False Some refl i1 [symmetric] refl i2 [symmetric] refl i3 [symmetric]
          vr tr]
      note ih3 = 2(4) [OF False Some refl i1 [symmetric] refl i2 [symmetric] refl i3 [symmetric]
          vv tv]
      have "good (payloads (Array limit count v aoff rc (Some r)))
              (andThen (forEach v o1 c1) (andThen (Array_forEach r (o2 - aoff) c2)
                  (forEach v (o3 - Count r + rc) c3))) off cnt
              (content (Array limit count v aoff rc (Some r)))
              (runs (Array limit count v aoff rc (Some r)) (nat_of off) (nat_of cnt))"
        by (rule forEach_splice [OF va [unfolded Some] ts win False i1 i2 i3 ih1 ih2 ih3])
      then have "good (payloads (Array limit count v aoff rc (Some r)))
          (andThen (enter (Arr (Array limit count v aoff rc (Some r))) off cnt)
            (andThen (forEach v o1 c1) (andThen (Array_forEach r (o2 - aoff) c2)
                  (forEach v (o3 - Count r + rc) c3)))) off cnt
              (content (Array limit count v aoff rc (Some r)))
              (runs (Array limit count v aoff rc (Some r)) (nat_of off) (nat_of cnt))"
        using en Some by (intro good_enter) simp_all
      then show ?thesis using Some False i1 i2 i3
        by (simp add: Array_forEach.simps)
    qed
  qed
qed

subsection \<open>Slice and Splice keep nodes valid\<close>

lemma valid_zero: "valid zero" "content zero = []"
  by (simp_all add: zero_def)

lemma valid_leaf:
  assumes "0 \<le> sint c" "sint c \<le> int (length s)" "length s < 2 ^ 63"
  shows "valid (Array limit c (Slicer s) 0 0 None)"
    and "content (Array limit c (Slicer s) 0 0 None) = take (nat_of c) s"
  using assms by simp_all

lemma valid_newLeaf:
  assumes "length s < 2 ^ 63"
  shows "valid (newLeaf limit s)" and "content (newLeaf limit s) = s"
proof -
  have l: "sint (len s) = int (length s)" using assms by (rule sint_len)
  then have n: "nat_of (len s) = length s" by (simp add: nat_of_def)
  show "valid (newLeaf limit s)" using assms l by (simp add: newLeaf_def)
  show "content (newLeaf limit s) = s" using n by (simp add: newLeaf_def)
qed

lemma in_bounds_check:
  assumes "in_bounds off cnt (sint (Count a))"
  shows "\<not> (off <s 0 \<or> cnt <s 0 \<or> Count a <s off + cnt)"
    and "sint (off + cnt) = sint off + sint cnt"
proof -
  from assms have q: "0 \<le> sint off" "0 \<le> sint cnt" "sint off + sint cnt \<le> sint (Count a)"
    by (simp_all add: in_bounds_def)
  have "sint off + sint cnt < 2 ^ 63" using q(3) sint_less64 [of "Count a"] by linarith
  from nat_of_add(1) [OF q(1) q(2) this]
  show s: "sint (off + cnt) = sint off + sint cnt" .
  show "\<not> (off <s 0 \<or> cnt <s 0 \<or> Count a <s off + cnt)"
    using q s by (simp add: word_sless_alt)
qed

lemma Slice_valid:
  assumes va: "valid a" and ib: "in_bounds off cnt (sint (Count a))"
  shows "\<exists>b. Slice a off cnt = Inr b \<and> valid b \<and>
              content b = take (nat_of cnt) (drop (nat_of off) (content a)) \<and>
              payloads b \<subseteq> payloads a"
proof -
  note chk = in_bounds_check [OF ib]
  from ib have q: "0 \<le> sint off" "0 \<le> sint cnt" "sint off + sint cnt \<le> sint (Count a)"
    by (simp_all add: in_bounds_def)
  note lc = length_content(1) [OF va]
  consider (ident) "off = 0 \<and> cnt = Count a"
    | (empty) "\<not> (off = 0 \<and> cnt = Count a)" "cnt = 0"
    | (view) "\<not> (off = 0 \<and> cnt = Count a)" "cnt \<noteq> 0" "replacement a = None"
    | (wrap) "\<not> (off = 0 \<and> cnt = Count a)" "cnt \<noteq> 0" "replacement a \<noteq> None"
    by blast
  then show ?thesis
  proof cases
    case ident
    then have "Slice a off cnt = Inr a" using chk(1) by (simp add: Slice_def)
    moreover have "content a = take (nat_of cnt) (drop (nat_of off) (content a))"
      using ident lc by simp
    ultimately show ?thesis using va by auto
  next
    case empty
    then have "Slice a off cnt = Inr (Array (Limit a) 0 NilValue 0 0 None)"
      using chk(1) by (auto simp: Slice_def)
    then show ?thesis using empty by simp
  next
    case view
    obtain limit count v aoff rc where a: "a = Array limit count v aoff rc None"
      using view(3) by (cases a) auto
    from va a have w: "0 \<le> sint aoff" "0 \<le> sint count"
      "sint aoff + sint count \<le> int (length (vcontent v))" "valid_v v" by simp_all
    have lv: "int (length (vcontent v)) < 2 ^ 63"
      using length_content(2) [OF w(4)] by simp
    have "sint aoff + sint off < 2 ^ 63" using w q lv a by simp
    note s = nat_of_add [OF w(1) q(1) this]
    have b: "Slice a off cnt = Inr (Array limit cnt v (aoff + off) 0 None)"
      using view chk(1) a by (auto simp: Slice_def)
    have vb: "valid (Array limit cnt v (aoff + off) 0 None)"
      using w q s(1) a by simp
    have oc: "nat_of off + nat_of cnt \<le> nat_of count"
      using q w(2) a unfolding nat_of_def by simp
    have "take (nat_of cnt) (drop (nat_of off) (take (nat_of count) (drop (nat_of aoff) (vcontent v)))) =
          take (nat_of cnt) (drop (nat_of aoff + nat_of off) (vcontent v))"
      using oc by (simp add: drop_take min_def add.commute)
    then have "content (Array limit cnt v (aoff + off) 0 None) =
        take (nat_of cnt) (drop (nat_of off) (content a))"
      using a by (simp add: s(2))
    then show ?thesis using b vb a by simp
  next
    case wrap
    have b: "Slice a off cnt = Inr (Array (Limit a - 1) cnt (Arr a) off 0 None)"
      using wrap chk(1) by (auto simp: Slice_def)
    have "sint off + sint cnt \<le> int (length (content a))"
      using q lc valid_Count_nonneg [OF va] by (simp add: nat_of_int)
    then have vb: "valid (Array (Limit a - 1) cnt (Arr a) off 0 None)"
      using va q by simp
    show ?thesis using b vb by simp
  qed
qed

lemma Splice_valid:
  assumes va: "valid a" and vr: "valid r" and ib: "in_bounds off cnt (sint (Count a))"
    and small: "sint (Count a) - sint cnt + sint (Count r) < 2 ^ 63"
  shows "\<exists>b. Splice a off cnt r = Inr b \<and> valid b \<and>
              sint (Count b) = sint (Count a) + sint (Count r) - sint cnt \<and>
              content b = take (nat_of off) (content a) @ content r @
                          drop (nat_of off + nat_of cnt) (content a) \<and>
              payloads b \<subseteq> payloads a \<union> payloads r"
proof -
  note chk = in_bounds_check [OF ib]
  from ib have q: "0 \<le> sint off" "0 \<le> sint cnt" "sint off + sint cnt \<le> sint (Count a)"
    by (simp_all add: in_bounds_def)
  note lc = length_content(1) [OF va] and lr = length_content(1) [OF vr]
  note c0 = valid_Count_nonneg [OF va] and m0 = valid_Count_nonneg [OF vr]
  show ?thesis
  proof (cases "off = 0 \<and> cnt = Count a")
    case True
    then have "Splice a off cnt r = Inr r" using chk(1) by (simp add: Splice_def)
    moreover have "content r = take (nat_of off) (content a) @ content r @
                          drop (nat_of off + nat_of cnt) (content a)"
      using True lc by simp
    ultimately show ?thesis using vr True by auto
  next
    case False
    define C' where "C' = Count a + (Count r - cnt)"
    have d: "sint (Count r - cnt) = sint (Count r) - sint cnt"
      using q m0 sint_less64 [of "Count r"] sint_less64 [of cnt]
      by (intro sint_sub64) simp_all
    have C': "sint C' = sint (Count a) - sint cnt + sint (Count r)"
    proof -
      have "sint C' = sint (Count a) + sint (Count r - cnt)"
        unfolding C'_def
      proof (rule sint_add64)
        have "0 \<le> sint (Count a) + (sint (Count r) - sint cnt)"
          using q c0 m0 by linarith
        then show "- (2 ^ 63) \<le> sint (Count a) + sint (Count r - cnt)"
          unfolding d by simp
        have "sint (Count a) + (sint (Count r) - sint cnt) < 2 ^ 63"
          using small by linarith
        then show "sint (Count a) + sint (Count r - cnt) < 2 ^ 63"
          unfolding d by simp
      qed
      then show ?thesis unfolding d by simp
    qed
    have C0: "0 \<le> sint C'" using C' q m0 by simp
    have nC: "nat_of C' + nat_of cnt = nat_of (Count a) + nat_of (Count r)"
      using C' q c0 m0 unfolding nat_of_def by linarith
    have nq: "nat_of off + nat_of cnt \<le> nat_of (Count a)"
      using q c0 unfolding nat_of_def by linarith
    show ?thesis
    proof (cases "offset a \<noteq> 0 \<or> replacement a \<noteq> None")
      case True
      define b where "b = Array (Limit a - 1) C' (Arr a) off cnt (Some r)"
      have sb: "Splice a off cnt r = Inr b"
        using False True chk(1) by (auto simp: Splice_def b_def C'_def Let_def)
      have vb: "valid b"
        using va vr q C' C0 m0 small lc c0 by (simp add: b_def nat_of_int)
      define X where "X = take (nat_of off) (content a) @ content r @
                          drop (nat_of off + nat_of cnt) (content a)"
      have lX: "length X = nat_of C'"
        unfolding X_def using nC nq lc lr by simp
      have "content b = take (nat_of C') X" by (simp add: b_def X_def)
      also have "\<dots> = X" using lX by simp
      finally have "content b = take (nat_of off) (content a) @ content r @
                          drop (nat_of off + nat_of cnt) (content a)"
        unfolding X_def .
      then show ?thesis using sb vb C' by (auto simp: b_def)
    next
      case leaf: False
      obtain limit count v rc where a: "a = Array limit count v 0 rc None"
        using leaf by (cases a) auto
      from va a have w: "0 \<le> sint count" "sint count \<le> int (length (vcontent v))" "valid_v v"
        by simp_all
      define b where "b = Array limit C' v off cnt (Some r)"
      have sb: "Splice a off cnt r = Inr b"
        using False leaf chk(1) a by (auto simp: Splice_def b_def C'_def Let_def)
      have vb: "valid b"
        using w vr q C' C0 m0 small a by (simp add: b_def)
      have ca: "content a = take (nat_of count) (vcontent v)" using a by simp
      have nl: "nat_of count \<le> length (vcontent v)"
        using w unfolding nat_of_def by linarith
      have nq': "nat_of off + nat_of cnt \<le> nat_of count" using nq a by simp
      have nC': "nat_of C' + nat_of cnt = nat_of count + nat_of (Count r)" using nC a by simp
      have 1: "take (nat_of off) (take (nat_of count) (vcontent v)) = take (nat_of off) (vcontent v)"
        using nq' by (simp add: min_def)
      have 2: "drop (nat_of off + nat_of cnt) (take (nat_of count) (vcontent v)) =
          take (nat_of count - (nat_of off + nat_of cnt)) (drop (nat_of off + nat_of cnt) (vcontent v))"
        by (simp add: drop_take)
      have 3: "take (nat_of C') (take (nat_of off) (vcontent v) @ content r @
                  drop (nat_of off + nat_of cnt) (vcontent v)) =
               take (nat_of off) (vcontent v) @ content r @
               take (nat_of count - (nat_of off + nat_of cnt))
                 (drop (nat_of off + nat_of cnt) (vcontent v))"
      proof -
        have l1: "length (take (nat_of off) (vcontent v)) = nat_of off"
          using nq' nl by simp
        have "nat_of C' - nat_of off - length (content r) = nat_of count - (nat_of off + nat_of cnt)"
          using nC' nq' lr by linarith
        moreover have "nat_of off \<le> nat_of C'" "length (content r) \<le> nat_of C' - nat_of off"
          using nC' nq' lr by linarith+
        ultimately show ?thesis using l1 by simp
      qed
      have "content b = take (nat_of off) (content a) @ content r @
                          drop (nat_of off + nat_of cnt) (content a)"
        unfolding ca 1 2 using 3 by (simp add: b_def)
      then show ?thesis using sb vb a C' by (auto simp: b_def)
    qed
  qed
qed

lemma built_valid: "built (2 ^ 63) a \<Longrightarrow> valid a"
proof (induction rule: built.induct)
  case zero
  show ?case by (rule valid_zero)
next
  case (leaf c s limit)
  then show ?case by simp
next
  case (slice a off cnt b)
  with Slice_valid [OF slice.IH slice.hyps(2)] show ?case by auto
next
  case (splice a r off cnt b)
  with Splice_valid [OF splice.IH(1) splice.IH(2) splice.hyps(3)] show ?case by auto
qed

lemma tracks_valid: "tracks (2 ^ 63) a xs \<Longrightarrow> valid a \<and> content a = xs"
proof (induction rule: tracks.induct)
  case (leaf s limit)
  then show ?case by (simp add: valid_newLeaf)
next
  case (slice a xs off cnt b)
  then have va: "valid a" and ca: "content a = xs" by simp_all
  have "int (length xs) = sint (Count a)"
    using length_content(1) [OF va] valid_Count_nonneg [OF va] ca by (simp add: nat_of_int)
  with slice.hyps(2) have "in_bounds off cnt (sint (Count a))" by simp
  from Slice_valid [OF va this] slice.hyps(3) ca show ?case
    by (auto simp: eager_slice_def)
next
  case (splice a xs r ys off cnt b)
  then have va: "valid a" and ca: "content a = xs" and vr: "valid r" and cr: "content r = ys"
    by simp_all
  have la: "int (length xs) = sint (Count a)"
    using length_content(1) [OF va] valid_Count_nonneg [OF va] ca by (simp add: nat_of_int)
  have lr: "int (length ys) = sint (Count r)"
    using length_content(1) [OF vr] valid_Count_nonneg [OF vr] cr by (simp add: nat_of_int)
  from splice.hyps(3) la have ib: "in_bounds off cnt (sint (Count a))" by simp
  then have q: "0 \<le> sint off" "0 \<le> sint cnt" "sint off + sint cnt \<le> sint (Count a)"
    by (simp_all add: in_bounds_def)
  have "nat_of off + nat_of cnt \<le> length xs"
    using q la unfolding nat_of_def by linarith
  then have "int (length (eager_splice xs off cnt ys)) =
      sint (Count a) - sint cnt + sint (Count r)"
    using la lr q unfolding eager_splice_def nat_of_def by simp
  moreover from splice.hyps(4) have "int (length (eager_splice xs off cnt ys)) < int (2 ^ 63)"
    by (simp only: of_nat_less_iff)
  ultimately have "sint (Count a) - sint cnt + sint (Count r) < 2 ^ 63"
    by simp
  from Splice_valid [OF va vr ib this] splice.hyps(5) ca cr show ?case
    by (auto simp: eager_splice_def)
qed

lemma ForEach_orderly:
  assumes "valid a"
  shows "orderly (payloads a) (ForEach a)"
  unfolding ForEach_def using assms valid_Count_nonneg [OF assms]
  by (intro traversal_orderly(2)) (simp_all add: window_ok_def in_bounds_def)

lemma ForEach_valid:
  assumes "valid a" "tail_fits a"
  shows "good (payloads a) (ForEach a) 0 (Count a) (content a) (runs a 0 (nat_of (Count a)))"
proof -
  have "good (payloads a) (Array_forEach a 0 (Count a)) 0 (Count a) (content a)
          (runs a (nat_of 0) (nat_of (Count a)))"
    using assms valid_Count_nonneg [OF assms(1)]
    by (intro traversal(2)) (simp_all add: window_ok_def in_bounds_def)
  then show ?thesis by (simp add: ForEach_def)
qed

lemma ForEach_valid_segments:
  assumes "valid a" "tail_fits a"
  shows "segments (ForEach a) = content a"
  using ForEach_valid [OF assms] length_content(1) [OF assms(1)] by (simp add: good_def)

text \<open>
  Where no tail sum wraps, the traversal of a node that tracks a reference string
  delivers that string.
\<close>

lemma ForEach_tracks:
  assumes "tracks (2 ^ 63) a xs" "tail_fits a"
  shows "snd (ForEach a) = None \<and> segments (ForEach a) = xs"
proof -
  from tracks_valid [OF assms(1)] have va: "valid a" and ca: "content a = xs" by simp_all
  from ForEach_orderly [OF va] have "snd (ForEach a) = None"
    by (simp add: orderly_def)
  with ForEach_valid_segments [OF va assms(2)] ca show ?thesis by simp
qed

section \<open>The claims\<close>

subsection \<open>Nodes of the test file, and nodes spliced into themselves\<close>

lemma built_hello: "built (2 ^ 63) (Array 0 5 (Slicer ''hello'') 0 0 None)"
  by (rule built.leaf) simp_all

lemma built_j: "built (2 ^ 63) (Array 0 1 (Slicer ''j'') 0 0 None)"
  by (rule built.leaf) simp_all

lemma built_jello:
  "built (2 ^ 63) (Array 0 5 (Slicer ''hello'') 0 1 (Some (Array 0 1 (Slicer ''j'') 0 0 None)))"
  by (rule built.splice [OF built_hello built_j, of 0 1])
     (simp_all add: in_bounds_def Splice_def word_sless_alt)

lemma built_hello_l_lo:
  "built (2 ^ 63)
     (Array 0 5 (Slicer ''hello'') 2 1 (Some (Array 0 1 (Slicer ''hello'') 2 0 None)))"
proof -
  have l: "built (2 ^ 63) (Array 0 1 (Slicer ''hello'') 2 0 None)"
    by (rule built.slice [OF built_hello, of 2 1])
       (simp_all add: in_bounds_def Slice_def word_sless_alt)
  show ?thesis
    by (rule built.splice [OF built_hello l, of 2 1])
       (simp_all add: in_bounds_def Splice_def word_sless_alt)
qed

lemma requests_hello_l_lo:
  "requests (ForEach
     (Array 0 5 (Slicer ''hello'') 2 1 (Some (Array 0 1 (Slicer ''hello'') 2 0 None)))) =
     [(''hello'', 0, 2), (''hello'', 2, 1), (''hello'', 3, 2)]"
  by (simp add: ForEach_def Array_forEach.simps forEach.simps intersect_def andThen_def
      enter_def requests_def Slicer_Slice_def word_sless_alt word_sle_eq Let_def)

text \<open>
  The range \<open>(2 ^ 63 - 1, 1)\<close> passes the bounds check of \<open>Slice\<close> on the leaf
  \<open>hello\<close>, since its right edge wraps around; the traversal of the node returned asks
  the payload for that range and panics. So does the traversal of a leaf whose count
  exceeds the length of its payload.
\<close>

lemma Slice_hello_wrapped:
  "Slice (newArray ''hello'') 9223372036854775807 1 =
     Inr (Array 0 1 (Slicer ''hello'') 9223372036854775807 0 None)"
  by (simp add: Slice_def newArray_def newLeaf_def len_def word_sless_alt)

lemma ForEach_hello_wrapped:
  "ForEach (Array 0 1 (Slicer ''hello'') 9223372036854775807 0 None) =
     ([Enter (Arr (Array 0 1 (Slicer ''hello'') 9223372036854775807 0 None)) 0 1,
       Enter (Slicer ''hello'') 9223372036854775807 1,
       Request ''hello'' 9223372036854775807 1], Some SliceBoundsOutOfRange)"
  by (simp add: ForEach_def Array_forEach.simps forEach.simps andThen_def
      enter_def Slicer_Slice_def word_sless_alt word_sle_eq Let_def)

lemma ForEach_long_leaf:
  "ForEach (Array 0 6 (Slicer ''hello'') 0 0 None) =
     ([Enter (Arr (Array 0 6 (Slicer ''hello'') 0 0 None)) 0 6,
       Enter (Slicer ''hello'') 0 6,
       Request ''hello'' 0 6], Some SliceBoundsOutOfRange)"
  by (simp add: ForEach_def Array_forEach.simps forEach.simps andThen_def
      enter_def Slicer_Slice_def word_sless_alt word_sle_eq Let_def)

lemma Splice_self:
  assumes "0 < sint (Count a)"
  shows "Splice a 0 0 a = Inr (double a)"
    and "Count (double a) = Count a + Count a"
    and "replacement (double a) = Some a"
    and "offset (double a) = 0" and "rcount (double a) = 0"
proof -
  have nz: "Count a \<noteq> 0" using assms by auto
  have chk: "\<not> Count a <s 0" using assms by (simp add: word_sless_alt)
  have "\<exists>v l. Splice a 0 0 a = Inr (Array l (Count a + Count a) v 0 0 (Some a))"
    using nz chk by (cases "offset a \<noteq> 0 \<or> replacement a \<noteq> None")
      (simp_all add: Splice_def Let_def)
  then obtain v l where s: "Splice a 0 0 a = Inr (Array l (Count a + Count a) v 0 0 (Some a))"
    by blast
  then have d: "double a = Array l (Count a + Count a) v 0 0 (Some a)"
    by (simp add: double_def)
  show "Splice a 0 0 a = Inr (double a)" using s d by simp
  show "Count (double a) = Count a + Count a" "replacement (double a) = Some a"
    "offset (double a) = 0" "rcount (double a) = 0"
    using d by simp_all
qed

lemma sint_sum_small: "sint (a :: int64) - sint (0 :: int64) + sint (c :: int64) < 2 ^ 64"
  using sint_less64 [of a] sint_less64 [of c] by simp

lemma built_doubles:
  "k \<le> 62 \<Longrightarrow> built (2 ^ 64) ((double ^^ k) (newArray ''a'')) \<and>
     sint (Count ((double ^^ k) (newArray ''a''))) = 2 ^ k"
proof (induction k)
  case 0
  have "built (2 ^ 64) (Array 0 1 (Slicer ''a'') 0 0 None)"
    by (rule built.leaf) simp_all
  then show ?case by (simp add: newArray_def newLeaf_def len_def)
next
  case (Suc k)
  let ?a = "(double ^^ k) (newArray ''a'')"
  from Suc have b: "built (2 ^ 64) ?a" and c: "sint (Count ?a) = 2 ^ k" by simp_all
  have pos: "0 < sint (Count ?a)" using c by simp
  note s = Splice_self [OF pos]
  have ib: "in_bounds 0 0 (sint (Count ?a))" using pos by (simp add: in_bounds_def)
  have "built (2 ^ 64) (double ?a)"
    by (rule built.splice [OF b b ib _ s(1)]) (rule sint_sum_small)
  moreover have "sint (Count (double ?a)) = 2 ^ Suc k"
  proof -
    have "(2::int) ^ k \<le> 2 ^ 61" using Suc.prems by (intro power_increasing) simp_all
    then have "sint (Count ?a) + sint (Count ?a) < 2 ^ 63" using c by simp
    then have "sint (Count ?a + Count ?a) = sint (Count ?a) + sint (Count ?a)"
      using pos by (intro sint_add64) simp_all
    then show ?thesis using s(2) c by simp
  qed
  ultimately show ?case by simp
qed

lemma length_eager_double: "length (eager_double xs) = 2 * length xs"
  by (simp add: eager_double_def eager_splice_def)

lemma tracks_doubles:
  "k \<le> 61 \<Longrightarrow>
     tracks (2 ^ 63) ((double ^^ k) (newArray ''abc'')) ((eager_double ^^ k) ''abc'') \<and>
     built (2 ^ 64) ((double ^^ k) (newArray ''abc'')) \<and>
     sint (Count ((double ^^ k) (newArray ''abc''))) = 3 * 2 ^ k \<and>
     length ((eager_double ^^ k) ''abc'') = 3 * 2 ^ k"
proof (induction k)
  case 0
  have "tracks (2 ^ 63) (newArray ''abc'') ''abc''"
    unfolding newArray_def by (rule tracks.leaf) simp_all
  moreover have "built (2 ^ 64) (Array 0 3 (Slicer ''abc'') 0 0 None)"
    by (rule built.leaf) simp_all
  ultimately show ?case by (simp add: newArray_def newLeaf_def len_def)
next
  case (Suc k)
  let ?a = "(double ^^ k) (newArray ''abc'')" and ?xs = "(eager_double ^^ k) ''abc''"
  from Suc have t: "tracks (2 ^ 63) ?a ?xs" and b: "built (2 ^ 64) ?a"
    and c: "sint (Count ?a) = 3 * 2 ^ k" and l: "length ?xs = 3 * 2 ^ k" by simp_all
  have pos: "0 < sint (Count ?a)" using c by simp
  note s = Splice_self [OF pos]
  have ib: "in_bounds 0 0 (int (length ?xs))" by (simp add: in_bounds_def)
  have ib': "in_bounds 0 0 (sint (Count ?a))" using pos by (simp add: in_bounds_def)
  have "built (2 ^ 64) (double ?a)"
    by (rule built.splice [OF b b ib' _ s(1)]) (rule sint_sum_small)
  moreover
  have p: "(2::nat) ^ k \<le> 2 ^ 60" using Suc.prems by (intro power_increasing) simp_all
  have pi: "(2::int) ^ k \<le> 2 ^ 60" using Suc.prems by (intro power_increasing) simp_all
  have "length (eager_splice ?xs 0 0 ?xs) < 2 ^ 63"
    using l p length_eager_double [of ?xs] by (simp add: eager_double_def)
  from tracks.splice [OF t t ib this s(1)]
  have "tracks (2 ^ 63) (double ?a) (eager_double ?xs)" by (simp add: eager_double_def)
  moreover have "sint (Count (double ?a)) = 3 * 2 ^ Suc k"
  proof -
    have "sint (Count ?a) + sint (Count ?a) < 2 ^ 63" using c pi by simp
    then have "sint (Count ?a + Count ?a) = sint (Count ?a) + sint (Count ?a)"
      using pos by (intro sint_add64) simp_all
    then show ?thesis using s(2) c by simp
  qed
  moreover have "length (eager_double ?xs) = 3 * 2 ^ Suc k"
    using l length_eager_double [of ?xs] by simp
  ultimately show ?case by simp
qed

lemma sint_inject64: "sint (a :: int64) = sint b \<Longrightarrow> a = b"
  by (metis signed_word_eqI)

lemma forEach_nothing:
  "forEach v off 0 = ([Enter v off 0], None)"
  by (simp add: forEach.simps andThen_def enter_def)

lemma Array_forEach_nothing:
  "Array_forEach a off 0 = ([Enter (Arr a) off 0], None)"
  by (cases a) (simp add: Array_forEach.simps andThen_def enter_def)

text \<open>
  The leaf \<open>abc\<close> spliced into itself \<open>61\<close> times has \<open>3 * 2 ^ 61\<close> positions.
  \<open>Slice\<close> of its last position returns a node of count \<open>1\<close>, and the traversal of
  that node visits nothing: for the tail zone the sum \<open>offset + replacement.Count + Count\<close>
  is \<open>9 * 2 ^ 60\<close> and wraps around.
\<close>

lemma lost_tail:
  shows "Slice ((double ^^ 61) (newArray ''abc'')) 6917529027641081855 1 =
      Inr (Array (Limit ((double ^^ 61) (newArray ''abc'')) - 1) 1
        (Arr ((double ^^ 61) (newArray ''abc''))) 6917529027641081855 0 None)"
    and "snd (ForEach (Array (Limit ((double ^^ 61) (newArray ''abc'')) - 1) 1
        (Arr ((double ^^ 61) (newArray ''abc''))) 6917529027641081855 0 None)) = None"
    and "visits (ForEach (Array (Limit ((double ^^ 61) (newArray ''abc'')) - 1) 1
        (Arr ((double ^^ 61) (newArray ''abc''))) 6917529027641081855 0 None)) = []"
proof -
  let ?E = "(double ^^ 60) (newArray ''abc'')"
  let ?N = "(double ^^ 61) (newArray ''abc'')"
  let ?K = "6917529027641081855 :: int64"
  let ?ex = "Array (Limit ?N - 1) 1 (Arr ?N) ?K 0 None"
  from tracks_doubles [of 60] have cE: "sint (Count ?E) = 3458764513820540928" by simp
  from tracks_doubles [of 61] have cN: "sint (Count ?N) = 6917529027641081856" by simp
  have CE: "Count ?E = 3458764513820540928"
    by (rule sint_inject64) (simp add: cE)
  have CN: "Count ?N = 6917529027641081856"
    by (rule sint_inject64) (simp add: cN)
  have N: "?N = double ?E" by (simp add: numeral_eq_Suc)
  have pos: "0 < sint (Count ?E)" using cE by simp
  note s = Splice_self [OF pos, folded N]
  obtain l c v where Ns: "?N = Array l c v 0 0 (Some ?E)"
    using s(3-5) by (cases ?N) auto
  have c: "c = 6917529027641081856" using CN Ns by simp
  show "Slice ?N ?K 1 = Inr ?ex"
    using s(3) CN by (simp add: Slice_def word_sless_alt)
  have "Array_forEach ?N ?K 1 =
      ([Enter (Arr ?N) ?K 1, Enter v 0 0, Enter (Arr ?E) 0 0,
        Enter v (0 - 3458764513820540928) 0], None)"
    unfolding Ns c
    by (simp add: Array_forEach.simps [of _ _ _ _ _ "Some ?E"] CE intersect_def Let_def
        word_sless_alt forEach_nothing Array_forEach_nothing andThen_def enter_def)
  then have r: "ForEach ?ex =
      ([Enter (Arr ?ex) 0 1, Enter (Arr ?N) ?K 1, Enter (Arr ?N) ?K 1, Enter v 0 0,
        Enter (Arr ?E) 0 0, Enter v (0 - 3458764513820540928) 0], None)"
    by (simp add: ForEach_def Array_forEach.simps [of _ _ _ _ _ None] forEach.simps
        andThen_def enter_def)
  show "snd (ForEach ?ex) = None" unfolding r by simp
  show "visits (ForEach ?ex) = []" unfolding r by (simp add: visits_def)
qed

lemma built_lost_tail:
  "built (2 ^ 64)
     (Array (Limit ((double ^^ 61) (newArray ''abc'')) - 1) 1
        (Arr ((double ^^ 61) (newArray ''abc''))) 6917529027641081855 0 None)"
proof -
  let ?N = "(double ^^ 61) (newArray ''abc'')"
  from tracks_doubles [of 61] have bN: "built (2 ^ 64) ?N"
    and cN: "sint (Count ?N) = 6917529027641081856" by simp_all
  have "in_bounds 6917529027641081855 1 (sint (Count ?N))"
    unfolding cN by (simp add: in_bounds_def)
  from built.slice [OF bN this lost_tail(1)] show ?thesis .
qed

text \<open>
  The one-element leaf \<open>a\<close> spliced into itself \<open>63\<close> times, each time by the
  in-bounds call \<open>a.Splice(0, 0, a)\<close>, has the count \<open>- (2 ^ 63)\<close>.
\<close>

lemma wrapped_count:
  shows "built (2 ^ 64) ((double ^^ 63) (newArray ''a''))"
    and "sint (Count ((double ^^ 63) (newArray ''a''))) < 0"
proof -
  let ?a = "(double ^^ 62) (newArray ''a'')"
  from built_doubles [of 62] have b: "built (2 ^ 64) ?a" and c: "sint (Count ?a) = 2 ^ 62"
    by simp_all
  have pos: "0 < sint (Count ?a)" using c by simp
  note s = Splice_self [OF pos]
  have ib: "in_bounds 0 0 (sint (Count ?a))" using pos by (simp add: in_bounds_def)
  have "built (2 ^ 64) (double ?a)"
    by (rule built.splice [OF b b ib _ s(1)]) (rule sint_sum_small)
  moreover have "sint (Count (double ?a)) < 0"
    unfolding s(2) sint_word_add c by simp
  moreover have "(double ^^ 63) (newArray ''a'') = double ?a"
    by (simp add: numeral_eq_Suc)
  ultimately show "built (2 ^ 64) ((double ^^ 63) (newArray ''a''))"
    "sint (Count ((double ^^ 63) (newArray ''a''))) < 0" by simp_all
qed

text \<open>The traversal of that node visits nothing: every zone comes out empty.\<close>

lemma wrapped_visits:
  shows "snd (ForEach ((double ^^ 63) (newArray ''a''))) = None"
    and "visits (ForEach ((double ^^ 63) (newArray ''a''))) = []"
proof -
  let ?E = "(double ^^ 62) (newArray ''a'')"
  let ?N = "(double ^^ 63) (newArray ''a'')"
  from built_doubles [of 62] have cE: "sint (Count ?E) = 4611686018427387904" by simp
  have CE: "Count ?E = 4611686018427387904"
    by (rule sint_inject64) (simp add: cE)
  have N: "?N = double ?E" by (simp add: numeral_eq_Suc)
  have pos: "0 < sint (Count ?E)" using cE by simp
  note s = Splice_self [OF pos, folded N]
  obtain l c v where Ns: "?N = Array l c v 0 0 (Some ?E)"
    using s(3-5) by (cases ?N) auto
  have c: "c = 9223372036854775808" using s(2) CE Ns by simp
  have r: "ForEach ?N =
      ([Enter (Arr ?N) 0 9223372036854775808, Enter v 0 0, Enter (Arr ?E) 0 0,
        Enter v (0 - 4611686018427387904) 0], None)"
    unfolding ForEach_def unfolding Ns c
    by (simp add: Array_forEach.simps [of _ _ _ _ _ "Some ?E"] CE intersect_def Let_def
        word_sless_alt forEach_nothing Array_forEach_nothing andThen_def enter_def)
  show "snd (ForEach ?N) = None" unfolding r by simp
  show "visits (ForEach ?N) = []" unfolding r by (simp add: visits_def)
qed

lemma ForEach_enters_whole:
  "(Arr a, 0, Count a) \<in> set (enters (ForEach a))"
  by (cases a) (simp add: ForEach_def Array_forEach.simps andThen_def enter_def enters_def)

subsection \<open>C1: agreement with the eager reference\<close>

text \<open>
  C1. The segments \<open>ForEach\<close> delivers are to concatenate to what the eager reference
  holds, after every sequence of in-bounds edits. They do not: the traversal loses the
  tail zone of a node with a replacement where the sum \<open>offset + replacement.Count + Count\<close>
  wraps around. For the head zone and for the replacement, \<open>forEach\<close> passes the zone's
  start and the zone's own length to \<open>intersect\<close>; for the tail zone it passes the start
  \<open>offset + replacement.Count\<close> and the count of the whole node. The leaf \<open>abc\<close>
  spliced into itself \<open>61\<close> times has \<open>3 * 2 ^ 61\<close> positions, and so has the
  reference string, a length an \<open>int\<close> holds. \<open>Slice\<close> of its last position is in
  bounds, and the reference then holds one element. In the traversal, the tail zone
  starts at \<open>3 * 2 ^ 60\<close> and is \<open>3 * 2 ^ 60\<close> long; with the count \<open>3 * 2 ^ 61\<close>
  of the node as its length, the sum is \<open>9 * 2 ^ 60\<close> and wraps below \<open>0\<close>, the
  intersection comes out empty, and \<open>ForEach\<close> visits nothing. With the zone's own
  length the intersection is the position asked for.
\<close>

theorem ForEach_loses_tail_zone:
  "tracks (2 ^ 63)
     (Array (Limit ((double ^^ 61) (newArray ''abc'')) - 1) 1
        (Arr ((double ^^ 61) (newArray ''abc''))) 6917529027641081855 0 None)
     (eager_slice ((eager_double ^^ 61) ''abc'') 6917529027641081855 1) \<and>
   length (eager_slice ((eager_double ^^ 61) ''abc'') 6917529027641081855 1) = 1 \<and>
   segments (ForEach
     (Array (Limit ((double ^^ 61) (newArray ''abc'')) - 1) 1
        (Arr ((double ^^ 61) (newArray ''abc''))) 6917529027641081855 0 None)) = [] \<and>
   intersect 6917529027641081855 1 (0 + 3458764513820540928) 6917529027641081856 = (0, 0) \<and>
   intersect 6917529027641081855 1 (0 + 3458764513820540928) 3458764513820540928 =
     (6917529027641081855, 1)"
proof -
  let ?N = "(double ^^ 61) (newArray ''abc'')"
  let ?xs = "(eager_double ^^ 61) ''abc''"
  let ?K = "6917529027641081855 :: int64"
  have 3: "intersect ?K 1 (0 + 3458764513820540928) 6917529027641081856 = (0, 0)"
    "intersect ?K 1 (0 + 3458764513820540928) 3458764513820540928 = (?K, 1)"
    by (simp_all add: intersect_def word_sless_alt)
  from tracks_doubles [of 61] have tN: "tracks (2 ^ 63) ?N ?xs"
    and lN: "length ?xs = 6917529027641081856" by simp_all
  have ib: "in_bounds ?K 1 (int (length ?xs))"
    unfolding lN by (simp add: in_bounds_def)
  from tracks.slice [OF tN ib lost_tail(1)]
  have 1: "tracks (2 ^ 63) (Array (Limit ?N - 1) 1 (Arr ?N) ?K 0 None) (eager_slice ?xs ?K 1)" .
  have 2: "length (eager_slice ?xs ?K 1) = 1"
    using lN by (simp add: eager_slice_def nat_of_def)
  from 1 2 3 lost_tail(3) show ?thesis by (simp add: segments_def)
qed

theorem ForEach_loses_tail_zone_witness:
  "segments (ForEach
     (Array (Limit ((double ^^ 61) (newArray ''abc'')) - 1) 1
        (Arr ((double ^^ 61) (newArray ''abc''))) 6917529027641081855 0 None)) \<noteq>
   eager_slice ((eager_double ^^ 61) ''abc'') 6917529027641081855 1"
proof -
  let ?ex = "Array (Limit ((double ^^ 61) (newArray ''abc'')) - 1) 1
        (Arr ((double ^^ 61) (newArray ''abc''))) 6917529027641081855 0 None"
  let ?ys = "eager_slice ((eager_double ^^ 61) ''abc'') 6917529027641081855 1"
  from ForEach_loses_tail_zone have l: "length ?ys = 1" and s: "segments (ForEach ?ex) = []"
    by blast+
  from l have "?ys \<noteq> []" by auto
  then show ?thesis unfolding s by (rule not_sym)
qed

subsection \<open>C2: what the callback is given\<close>

lemma slice_of_triple:
  "slice_of (s, off, cnt) = (take (nat_of cnt) (drop (nat_of off) s), cnt)"
  by (simp add: slice_of_def)

lemma sum_visits:
  "\<forall>(s, off, cnt) \<in> set qs. in_bounds off cnt (int (length s)) \<Longrightarrow>
   sum_list (map (\<lambda>(seg, c). sint c) (map slice_of qs)) =
     int (length (concat (map fst (map slice_of qs)))) \<and>
   sum_list (map (\<lambda>(seg, c). int (length seg)) (map slice_of qs)) =
     int (length (concat (map fst (map slice_of qs))))"
proof (induction qs)
  case Nil
  show ?case by simp
next
  case (Cons q qs)
  obtain s off cnt where q: "q = (s, off, cnt)" by (cases q)
  have ib: "in_bounds off cnt (int (length s))" using Cons.prems q by simp
  then have l: "int (length (take (nat_of cnt) (drop (nat_of off) s))) = sint cnt"
    using in_bounds_nat [OF ib] by (simp add: in_bounds_def nat_of_int)
  from Cons have "sum_list (map (\<lambda>(seg, c). sint c) (map slice_of qs)) =
     int (length (concat (map fst (map slice_of qs)))) \<and>
   sum_list (map (\<lambda>(seg, c). int (length seg)) (map slice_of qs)) =
     int (length (concat (map fst (map slice_of qs))))" by simp
  then show ?case using l q by (simp add: slice_of_triple)
qed

lemma orderly_sums:
  assumes "orderly S r"
  shows "sum_list (map (\<lambda>(seg, c). sint c) (visits r)) = int (length (segments r))"
    and "sum_list (map (\<lambda>(seg, c). int (length seg)) (visits r)) = int (length (segments r))"
proof -
  from assms have v: "visits r = map slice_of (requests r)"
    and q: "\<forall>(s, off, cnt) \<in> set (requests r). in_bounds off cnt (int (length s))"
    unfolding orderly_def by auto
  show "sum_list (map (\<lambda>(seg, c). sint c) (visits r)) = int (length (segments r))"
    unfolding segments_def v using sum_visits [OF q] by simp
  show "sum_list (map (\<lambda>(seg, c). int (length seg)) (visits r)) = int (length (segments r))"
    unfolding segments_def v using sum_visits [OF q] by simp
qed

text \<open>
  C2. Stated with maximal runs, the claim fails: the traversal does not merge runs that
  continue each other across the border of two zones. In \<open>hello\<close> with its third
  element replaced by \<open>Slice(2, 1)\<close> of \<open>hello\<close> itself, the five positions are one
  contiguous run of the leaf, and \<open>ForEach\<close> asks the leaf three times, for \<open>[0, 2)\<close>,
  \<open>[2, 3)\<close> and \<open>[3, 5)\<close>. Stated for every node built through the interface, it
  fails where the count wraps around: the leaf \<open>a\<close> spliced into itself \<open>63\<close> times
  has a negative count, and its traversal visits nothing. It fails where the tail zone
  is lost: \<open>Slice\<close> of the last position of the leaf \<open>abc\<close> spliced into itself
  \<open>61\<close> times has the count \<open>1\<close>, and its traversal visits nothing. And it fails on
  the node \<open>Slice\<close> returns for the range \<open>(2 ^ 63 - 1, 1)\<close> of \<open>hello\<close> and on a
  leaf whose count exceeds the length of its payload: their traversals panic.
\<close>

theorem adjacent_runs_not_merged_counterexample:
  "built (2 ^ 63)
     (Array 0 5 (Slicer ''hello'') 2 1 (Some (Array 0 1 (Slicer ''hello'') 2 0 None))) \<and>
   requests (ForEach
     (Array 0 5 (Slicer ''hello'') 2 1 (Some (Array 0 1 (Slicer ''hello'') 2 0 None)))) =
     [(''hello'', 0, 2), (''hello'', 2, 1), (''hello'', 3, 2)] \<and>
   \<not> coalesced (requests (ForEach
     (Array 0 5 (Slicer ''hello'') 2 1 (Some (Array 0 1 (Slicer ''hello'') 2 0 None))))) \<and>
   built (2 ^ 64) ((double ^^ 63) (newArray ''a'')) \<and>
   sint (Count ((double ^^ 63) (newArray ''a''))) < 0 \<and>
   visits (ForEach ((double ^^ 63) (newArray ''a''))) = [] \<and>
   built (2 ^ 64)
     (Array (Limit ((double ^^ 61) (newArray ''abc'')) - 1) 1
        (Arr ((double ^^ 61) (newArray ''abc''))) 6917529027641081855 0 None) \<and>
   Count (Array (Limit ((double ^^ 61) (newArray ''abc'')) - 1) 1
        (Arr ((double ^^ 61) (newArray ''abc''))) 6917529027641081855 0 None) = 1 \<and>
   visits (ForEach
     (Array (Limit ((double ^^ 61) (newArray ''abc'')) - 1) 1
        (Arr ((double ^^ 61) (newArray ''abc''))) 6917529027641081855 0 None)) = [] \<and>
   Slice (newArray ''hello'') 9223372036854775807 1 =
     Inr (Array 0 1 (Slicer ''hello'') 9223372036854775807 0 None) \<and>
   snd (ForEach (Array 0 1 (Slicer ''hello'') 9223372036854775807 0 None)) =
     Some SliceBoundsOutOfRange \<and>
   snd (ForEach (Array 0 6 (Slicer ''hello'') 0 0 None)) = Some SliceBoundsOutOfRange"
proof -
  have 1: "\<not> coalesced (requests (ForEach
     (Array 0 5 (Slicer ''hello'') 2 1 (Some (Array 0 1 (Slicer ''hello'') 2 0 None)))))"
    unfolding requests_hello_l_lo by simp
  have 2: "snd (ForEach (Array 0 1 (Slicer ''hello'') 9223372036854775807 0 None)) =
     Some SliceBoundsOutOfRange"
    unfolding ForEach_hello_wrapped by simp
  have 3: "snd (ForEach (Array 0 6 (Slicer ''hello'') 0 0 None)) = Some SliceBoundsOutOfRange"
    unfolding ForEach_long_leaf by simp
  from built_hello_l_lo requests_hello_l_lo 1 wrapped_count wrapped_visits(2)
    built_lost_tail lost_tail(3) Slice_hello_wrapped 2 3
  show ?thesis by simp
qed

text \<open>
  C2, amended. For every node built through the interface by in-bounds edits, from the
  zero array and from leaves whose count is not negative and does not exceed the length
  of their payload, every splice returning fewer than \<open>2 ^ 63\<close> positions:
  \<open>ForEach\<close> does not panic and calls the callback once for each request it makes to
  a leaf payload, with the segment that request returns, a non-empty in-range segment of
  a payload of the node, never a node. Where moreover no sum
  \<open>offset + replacement.Count + Count\<close> of a node with a replacement wraps around, the
  requests are exactly the runs the structure records for the whole node, in
  left-to-right order: one call for each non-empty part of the window that lies within
  one zone (the head, the replacement or the tail of a node with a replacement), so that
  only parts lying in different zones are not merged; the segments concatenate to the
  content of the node, without overlap or gap, and the counts passed with them sum to
  the node's count.
\<close>

theorem ForEach_visits_zone_runs_in_order:
  assumes "built (2 ^ 63) a"
  shows "snd (ForEach a) = None \<and>
         visits (ForEach a) = map slice_of (requests (ForEach a)) \<and>
         (\<forall>(s, off, cnt) \<in> set (requests (ForEach a)).
            s \<in> payloads a \<and> cnt \<noteq> 0 \<and> in_bounds off cnt (int (length s))) \<and>
         (tail_fits a \<longrightarrow>
            map run_of (requests (ForEach a)) = runs a 0 (nat_of (Count a)) \<and>
            segments (ForEach a) = content a \<and>
            sum_list (map (\<lambda>(seg, c). int (length seg)) (visits (ForEach a))) = sint (Count a) \<and>
            sum_list (map (\<lambda>(seg, c). sint c) (visits (ForEach a))) = sint (Count a))"
proof -
  from built_valid [OF assms] have va: "valid a" .
  note o = ForEach_orderly [OF va]
  have t: "map run_of (requests (ForEach a)) = runs a 0 (nat_of (Count a)) \<and>
      segments (ForEach a) = content a \<and>
      sum_list (map (\<lambda>(seg, c). int (length seg)) (visits (ForEach a))) = sint (Count a) \<and>
      sum_list (map (\<lambda>(seg, c). sint c) (visits (ForEach a))) = sint (Count a)"
    if ta: "tail_fits a"
  proof -
    from ForEach_valid [OF va ta]
    have r: "map run_of (requests (ForEach a)) = runs a 0 (nat_of (Count a))"
      by (simp add: good_def)
    note sg = ForEach_valid_segments [OF va ta]
    have "int (length (segments (ForEach a))) = sint (Count a)"
      using sg length_content(1) [OF va] valid_Count_nonneg [OF va]
      by (simp add: nat_of_int)
    with orderly_sums [OF o] sg r show ?thesis by simp
  qed
  from o have "snd (ForEach a) = None"
    "visits (ForEach a) = map slice_of (requests (ForEach a))"
    "\<forall>(s, off, cnt) \<in> set (requests (ForEach a)).
            s \<in> payloads a \<and> cnt \<noteq> 0 \<and> in_bounds off cnt (int (length s))"
    unfolding orderly_def by blast+
  with t show ?thesis by blast
qed

theorem ForEach_visits_zone_runs_in_order_witness:
  "built (2 ^ 63)
     (Array 0 5 (Slicer ''hello'') 2 1 (Some (Array 0 1 (Slicer ''hello'') 2 0 None))) \<and>
   tail_fits
     (Array 0 5 (Slicer ''hello'') 2 1 (Some (Array 0 1 (Slicer ''hello'') 2 0 None))) \<and>
   snd (ForEach
     (Array 0 5 (Slicer ''hello'') 2 1 (Some (Array 0 1 (Slicer ''hello'') 2 0 None)))) = None \<and>
   map run_of (requests (ForEach
     (Array 0 5 (Slicer ''hello'') 2 1 (Some (Array 0 1 (Slicer ''hello'') 2 0 None))))) =
     [(''hello'', 0, 2), (''hello'', 2, 1), (''hello'', 3, 2)] \<and>
   segments (ForEach
     (Array 0 5 (Slicer ''hello'') 2 1 (Some (Array 0 1 (Slicer ''hello'') 2 0 None)))) =
     ''hello'' \<and>
   sum_list (map (\<lambda>(seg, c). int (length seg)) (visits (ForEach
     (Array 0 5 (Slicer ''hello'') 2 1 (Some (Array 0 1 (Slicer ''hello'') 2 0 None)))))) = 5 \<and>
   sum_list (map (\<lambda>(seg, c). sint c) (visits (ForEach
     (Array 0 5 (Slicer ''hello'') 2 1 (Some (Array 0 1 (Slicer ''hello'') 2 0 None)))))) = 5"
proof -
  let ?x = "Array 0 5 (Slicer ''hello'') 2 1 (Some (Array 0 1 (Slicer ''hello'') 2 0 None))"
  note t = ForEach_visits_zone_runs_in_order [OF built_hello_l_lo]
  have f: "tail_fits ?x" by simp
  have c: "content ?x = ''hello''" "sint (Count ?x) = 5"
    "runs ?x 0 (nat_of (Count ?x)) = [(''hello'', 0, 2), (''hello'', 2, 1), (''hello'', 3, 2)]"
    by (simp_all add: nat_of_def)
  from t f have "snd (ForEach ?x) = None"
    "map run_of (requests (ForEach ?x)) = runs ?x 0 (nat_of (Count ?x))"
    "segments (ForEach ?x) = content ?x"
    "sum_list (map (\<lambda>(seg, c). int (length seg)) (visits (ForEach ?x))) = sint (Count ?x)"
    "sum_list (map (\<lambda>(seg, c). sint c) (visits (ForEach ?x))) = sint (Count ?x)"
    by blast+
  then show ?thesis unfolding c using built_hello_l_lo f by blast
qed

subsection \<open>C3: the bounds check\<close>

text \<open>
  C3. \<open>Slice\<close> and \<open>Splice\<close> are to fail for every offset and count whose range leaves
  \<open>[0, Count]\<close>. The check of the source compares the wrapped sum \<open>offset + count\<close>
  with \<open>Count\<close>: on the five-element leaf \<open>hello\<close>, offset \<open>2 ^ 63 - 1\<close> and count
  \<open>1\<close> pass it, and both calls return a node.
\<close>

theorem bounds_check_passes_wrapped_range:
  "Slice (newArray ''hello'') 9223372036854775807 1 =
     Inr (Array 0 1 (Slicer ''hello'') 9223372036854775807 0 None) \<and>
   Splice (newArray ''hello'') 9223372036854775807 1 (newArray ''replace'') =
     Inr (Array 0 11 (Slicer ''hello'') 9223372036854775807 1 (Some (newArray ''replace'')))"
  by (simp add: Slice_def Splice_def newArray_def newLeaf_def len_def word_sless_alt)

theorem bounds_check_passes_wrapped_range_witness:
  "Slice (newArray ''hello'') 9223372036854775807 1 \<noteq> Inl InvalidSliceArgs \<and>
   Splice (newArray ''hello'') 9223372036854775807 1 (newArray ''replace'')
     \<noteq> Inl InvalidSpliceArgs"
  using bounds_check_passes_wrapped_range by simp

subsection \<open>C4: the identity short-circuits\<close>

text \<open>
  C4. Stated for every node, the claim fails on a node whose count is negative: the
  test \<open>count < 0\<close> of the bounds check comes before the short-circuit, and both calls
  panic. Such a node is \<open>Array{Count: -1}\<close>, and so is the leaf \<open>a\<close> spliced into
  itself \<open>63\<close> times.
\<close>

theorem identity_on_negative_count_counterexample:
  "Slice (Array 0 (- 1) NilValue 0 0 None) 0 (Count (Array 0 (- 1) NilValue 0 0 None)) =
     Inl InvalidSliceArgs \<and>
   Splice (Array 0 (- 1) NilValue 0 0 None) 0 (Count (Array 0 (- 1) NilValue 0 0 None))
     (newArray ''j'') = Inl InvalidSpliceArgs \<and>
   built (2 ^ 64) ((double ^^ 63) (newArray ''a'')) \<and>
   Slice ((double ^^ 63) (newArray ''a'')) 0 (Count ((double ^^ 63) (newArray ''a''))) =
     Inl InvalidSliceArgs \<and>
   Splice ((double ^^ 63) (newArray ''a'')) 0 (Count ((double ^^ 63) (newArray ''a'')))
     (newArray ''j'') = Inl InvalidSpliceArgs"
proof -
  have 1: "Slice (Array 0 (- 1) NilValue 0 0 None) 0 (Count (Array 0 (- 1) NilValue 0 0 None)) =
     Inl InvalidSliceArgs"
    "Splice (Array 0 (- 1) NilValue 0 0 None) 0 (Count (Array 0 (- 1) NilValue 0 0 None))
     (newArray ''j'') = Inl InvalidSpliceArgs"
    by (simp_all add: Slice_def Splice_def word_sless_alt)
  let ?N = "(double ^^ 63) (newArray ''a'')"
  from wrapped_count(2) have n: "Count ?N <s 0" by (simp add: word_sless_alt)
  have 2: "Slice ?N 0 (Count ?N) = Inl InvalidSliceArgs"
    "Splice ?N 0 (Count ?N) (newArray ''j'') = Inl InvalidSpliceArgs"
    using n by (simp_all add: Slice_def Splice_def)
  from 1 2 wrapped_count(1) show ?thesis by blast
qed

text \<open>
  C4, amended. On every node whose count is not negative, \<open>Slice(0, Count)\<close> returns
  the node itself and \<open>Splice(0, Count, r)\<close> returns \<open>r\<close> itself; no node is built.
\<close>

theorem identity_short_circuits:
  assumes "0 \<le>s Count n"
  shows "Slice n 0 (Count n) = Inr n \<and> Splice n 0 (Count n) r = Inr r"
  using assms by (simp add: Slice_def Splice_def word_sless_alt word_sle_eq)

theorem identity_short_circuits_witness:
  "0 \<le>s Count (newArray ''hello'') \<and>
   Slice (newArray ''hello'') 0 (Count (newArray ''hello'')) = Inr (newArray ''hello'') \<and>
   Splice (newArray ''hello'') 0 (Count (newArray ''hello'')) (newArray ''j'') =
     Inr (newArray ''j'')"
proof -
  have h: "0 \<le>s Count (newArray ''hello'')"
    by (simp add: newArray_def newLeaf_def len_def word_sle_eq)
  from identity_short_circuits [OF h, of "newArray ''j''"] h show ?thesis by simp
qed

subsection \<open>C5: what Slice builds\<close>

text \<open>
  C5. For an in-bounds window that is neither the whole node nor empty, \<open>Slice\<close> on a
  node without replacement (a leaf or a slice-view) returns a node directly over that
  node's own value, with the requested offset added to the node's offset and the limit
  unchanged; on a node with a replacement (a splice-view) it returns a node whose value
  is the whole splice-view, with the requested offset and the limit decremented by one.
\<close>

theorem Slice_collapses_or_wraps:
  assumes "in_bounds off cnt (sint (Count a))" "\<not> (off = 0 \<and> cnt = Count a)" "cnt \<noteq> 0"
  shows "(replacement a = None \<longrightarrow>
            Slice a off cnt = Inr (Array (Limit a) cnt (Value a) (offset a + off) 0 None)) \<and>
         (replacement a \<noteq> None \<longrightarrow>
            Slice a off cnt = Inr (Array (Limit a - 1) cnt (Arr a) off 0 None))"
  using assms(2,3) in_bounds_check(1) [OF assms(1)] by (auto simp: Slice_def)

theorem Slice_collapses_or_wraps_witness:
  "in_bounds 1 3 (sint (Count (Array 7 4 (Slicer ''hello'') 1 0 None))) \<and>
   Slice (Array 7 4 (Slicer ''hello'') 1 0 None) 1 3 =
     Inr (Array 7 3 (Slicer ''hello'') 2 0 None) \<and>
   in_bounds 1 3 (sint (Count (Array 7 5 (Slicer ''hello'') 0 1
       (Some (Array 0 1 (Slicer ''j'') 0 0 None))))) \<and>
   Slice (Array 7 5 (Slicer ''hello'') 0 1 (Some (Array 0 1 (Slicer ''j'') 0 0 None))) 1 3 =
     Inr (Array 6 3 (Arr (Array 7 5 (Slicer ''hello'') 0 1
       (Some (Array 0 1 (Slicer ''j'') 0 0 None)))) 1 0 None)"
proof -
  have 1: "in_bounds 1 3 (sint (Count (Array 7 4 (Slicer ''hello'') 1 0 None)))"
    by (simp add: in_bounds_def)
  have 2: "in_bounds 1 3 (sint (Count (Array 7 5 (Slicer ''hello'') 0 1
       (Some (Array 0 1 (Slicer ''j'') 0 0 None)))))"
    by (simp add: in_bounds_def)
  from Slice_collapses_or_wraps [OF 1] Slice_collapses_or_wraps [OF 2] 1 2
  show ?thesis by simp
qed

subsection \<open>C6: what Splice builds\<close>

text \<open>
  C6. Stated for every base node that is a slice-view or a splice-view, the claim fails
  on a slice-view whose offset is \<open>0\<close>: \<open>Slice(0, 4)\<close> of the leaf \<open>hello\<close> is a
  slice-view over the payload, and \<open>Splice(1, 1, xy)\<close> on it stores the payload itself,
  with the limit \<open>5\<close> unchanged, and not the slice-view with the limit \<open>4\<close>.
\<close>

theorem Splice_on_prefix_view_counterexample:
  "Slice (newLeaf 5 ''hello'') 0 4 = Inr (Array 5 4 (Slicer ''hello'') 0 0 None) \<and>
   Splice (Array 5 4 (Slicer ''hello'') 0 0 None) 1 1 (newArray ''xy'') =
     Inr (Array 5 5 (Slicer ''hello'') 1 1 (Some (newArray ''xy''))) \<and>
   Splice (Array 5 4 (Slicer ''hello'') 0 0 None) 1 1 (newArray ''xy'') \<noteq>
     Inr (Array 4 5 (Arr (Array 5 4 (Slicer ''hello'') 0 0 None)) 1 1 (Some (newArray ''xy'')))"
  by (simp add: Slice_def Splice_def newArray_def newLeaf_def len_def word_sless_alt)

text \<open>
  C6, amended. For every in-bounds \<open>Splice\<close> that does not replace the whole node: if
  the base node has a replacement (a splice-view) or a non-zero offset, the new node
  stores the whole base node as its value and its limit is the base node's limit minus
  one; otherwise (a leaf, or a slice-view whose offset is \<open>0\<close>) the new node stores the
  base node's own value and its limit is the base node's limit. In both cases the count
  is \<open>Count + (replacement.Count - count)\<close> and offset, count and replacement are stored.
\<close>

theorem Splice_wraps_or_shares:
  assumes "in_bounds off cnt (sint (Count a))" "\<not> (off = 0 \<and> cnt = Count a)"
  shows "(offset a \<noteq> 0 \<or> replacement a \<noteq> None \<longrightarrow>
            Splice a off cnt r =
              Inr (Array (Limit a - 1) (Count a + (Count r - cnt)) (Arr a) off cnt (Some r))) \<and>
         (offset a = 0 \<and> replacement a = None \<longrightarrow>
            Splice a off cnt r =
              Inr (Array (Limit a) (Count a + (Count r - cnt)) (Value a) off cnt (Some r)))"
  using assms(2) in_bounds_check(1) [OF assms(1)] by (auto simp: Splice_def Let_def)

theorem Splice_wraps_or_shares_witness:
  "in_bounds 1 1 (sint (Count (Array 5 4 (Slicer ''hello'') 1 0 None))) \<and>
   Splice (Array 5 4 (Slicer ''hello'') 1 0 None) 1 1 (Array 0 2 (Slicer ''xy'') 0 0 None) =
     Inr (Array 4 5 (Arr (Array 5 4 (Slicer ''hello'') 1 0 None)) 1 1
            (Some (Array 0 2 (Slicer ''xy'') 0 0 None))) \<and>
   in_bounds 1 1 (sint (Count (Array 5 4 (Slicer ''hello'') 0 0 None))) \<and>
   Splice (Array 5 4 (Slicer ''hello'') 0 0 None) 1 1 (Array 0 2 (Slicer ''xy'') 0 0 None) =
     Inr (Array 5 5 (Slicer ''hello'') 1 1 (Some (Array 0 2 (Slicer ''xy'') 0 0 None)))"
proof -
  have 1: "in_bounds 1 1 (sint (Count (Array 5 4 (Slicer ''hello'') 1 0 None)))"
    by (simp add: in_bounds_def)
  have 2: "in_bounds 1 1 (sint (Count (Array 5 4 (Slicer ''hello'') 0 0 None)))"
    by (simp add: in_bounds_def)
  from Splice_wraps_or_shares [OF 1, of "Array 0 2 (Slicer ''xy'') 0 0 None"]
    Splice_wraps_or_shares [OF 2, of "Array 0 2 (Slicer ''xy'') 0 0 None"] 1 2
  show ?thesis by simp
qed

subsection \<open>C7: the count\<close>

lemma Slice_Count: "Slice a off cnt = Inr b \<Longrightarrow> Count b = cnt"
  by (auto simp: Slice_def split: if_splits)

lemma Splice_Count_sint:
  assumes "built (2 ^ 63) a" "built (2 ^ 63) r" "in_bounds off cnt (sint (Count a))"
    and "sint (Count a) - sint cnt + sint (Count r) < 2 ^ 63" "Splice a off cnt r = Inr b"
  shows "sint (Count b) = sint (Count a) + sint (Count r) - sint cnt"
  using Splice_valid [OF built_valid [OF assms(1)] built_valid [OF assms(2)] assms(3,4)] assms(5)
  by auto

text \<open>
  C7. Stated for every node built through the interface, the claim fails where the count
  wraps around: the one-element leaf \<open>a\<close> spliced into itself \<open>63\<close> times, each time
  by the in-bounds call \<open>a.Splice(0, 0, a)\<close>, has the count \<open>- (2 ^ 63)\<close>. It fails
  where the traversal loses the tail zone: \<open>Slice\<close> of the last position of the leaf
  \<open>abc\<close> spliced into itself \<open>61\<close> times has the count \<open>1\<close>, while its traversal
  visits no position. And it fails on the node \<open>Slice\<close> returns for the range
  \<open>(2 ^ 63 - 1, 1)\<close> of \<open>hello\<close>, of count \<open>1\<close>, and on a leaf of count \<open>6\<close>
  over \<open>hello\<close>: their traversals panic before any position is visited.
\<close>

theorem Count_wraps_around_counterexample:
  "built (2 ^ 64) ((double ^^ 63) (newArray ''a'')) \<and>
   sint (Count ((double ^^ 63) (newArray ''a''))) < 0 \<and>
   built (2 ^ 64)
     (Array (Limit ((double ^^ 61) (newArray ''abc'')) - 1) 1
        (Arr ((double ^^ 61) (newArray ''abc''))) 6917529027641081855 0 None) \<and>
   Count (Array (Limit ((double ^^ 61) (newArray ''abc'')) - 1) 1
        (Arr ((double ^^ 61) (newArray ''abc''))) 6917529027641081855 0 None) = 1 \<and>
   visits (ForEach
     (Array (Limit ((double ^^ 61) (newArray ''abc'')) - 1) 1
        (Arr ((double ^^ 61) (newArray ''abc''))) 6917529027641081855 0 None)) = [] \<and>
   Slice (newArray ''hello'') 9223372036854775807 1 =
     Inr (Array 0 1 (Slicer ''hello'') 9223372036854775807 0 None) \<and>
   visits (ForEach (Array 0 1 (Slicer ''hello'') 9223372036854775807 0 None)) = [] \<and>
   visits (ForEach (Array 0 6 (Slicer ''hello'') 0 0 None)) = []"
proof -
  have 1: "visits (ForEach (Array 0 1 (Slicer ''hello'') 9223372036854775807 0 None)) = []"
    unfolding ForEach_hello_wrapped by (simp add: visits_def)
  have 2: "visits (ForEach (Array 0 6 (Slicer ''hello'') 0 0 None)) = []"
    unfolding ForEach_long_leaf by (simp add: visits_def)
  from wrapped_count built_lost_tail lost_tail(3) Slice_hello_wrapped 1 2
  show ?thesis by simp
qed

text \<open>
  C7, amended. For every node built through the interface by in-bounds edits, from the
  zero array and from leaves whose count is not negative and does not exceed the length
  of their payload, every splice returning fewer than \<open>2 ^ 63\<close> positions: the count
  is not negative and is the number of positions of the content the node stands for.
  What \<open>Slice\<close> returns has the requested count, and what an in-bounds \<open>Splice\<close>
  with such a replacement returns has, as a number and not only modulo \<open>2 ^ 64\<close>, the
  count of the base node plus the count of the replacement minus the count replaced.
  Where moreover no sum \<open>offset + replacement.Count + Count\<close> of a node with a
  replacement wraps around, the count equals the sum of the lengths of the segments
  passed to the callback, and of the counts passed with them.
\<close>

theorem Count_is_number_of_positions:
  assumes "built (2 ^ 63) a"
  shows "0 \<le> sint (Count a) \<and>
         int (length (content a)) = sint (Count a) \<and>
         (tail_fits a \<longrightarrow>
            sum_list (map (\<lambda>(seg, c). int (length seg)) (visits (ForEach a))) = sint (Count a) \<and>
            sum_list (map (\<lambda>(seg, c). sint c) (visits (ForEach a))) = sint (Count a)) \<and>
         (\<forall>off cnt b. Slice a off cnt = Inr b \<longrightarrow> Count b = cnt) \<and>
         (\<forall>off cnt r b.
            built (2 ^ 63) r \<longrightarrow> in_bounds off cnt (sint (Count a)) \<longrightarrow>
            sint (Count a) - sint cnt + sint (Count r) < 2 ^ 63 \<longrightarrow>
            Splice a off cnt r = Inr b \<longrightarrow>
            sint (Count b) = sint (Count a) + sint (Count r) - sint cnt)"
proof -
  from built_valid [OF assms] have va: "valid a" .
  note c0 = valid_Count_nonneg [OF va]
  have lc: "int (length (content a)) = sint (Count a)"
    using length_content(1) [OF va] c0 by (simp add: nat_of_int)
  note o = ForEach_orderly [OF va]
  have t: "sum_list (map (\<lambda>(seg, c). int (length seg)) (visits (ForEach a))) = sint (Count a) \<and>
      sum_list (map (\<lambda>(seg, c). sint c) (visits (ForEach a))) = sint (Count a)"
    if ta: "tail_fits a"
    using orderly_sums [OF o] ForEach_valid_segments [OF va ta] lc by simp
  have sl: "\<forall>off cnt b. Slice a off cnt = Inr b \<longrightarrow> Count b = cnt"
    by (simp add: Slice_Count)
  have sp: "\<forall>off cnt r b.
            built (2 ^ 63) r \<longrightarrow> in_bounds off cnt (sint (Count a)) \<longrightarrow>
            sint (Count a) - sint cnt + sint (Count r) < 2 ^ 63 \<longrightarrow>
            Splice a off cnt r = Inr b \<longrightarrow>
            sint (Count b) = sint (Count a) + sint (Count r) - sint cnt"
    using Splice_Count_sint [OF assms] by blast
  from c0 lc t sl sp show ?thesis by blast
qed

theorem Count_is_number_of_positions_witness:
  "built (2 ^ 63) (Array 0 5 (Slicer ''hello'') 0 1 (Some (Array 0 1 (Slicer ''j'') 0 0 None))) \<and>
   tail_fits (Array 0 5 (Slicer ''hello'') 0 1 (Some (Array 0 1 (Slicer ''j'') 0 0 None))) \<and>
   sum_list (map (\<lambda>(seg, c). int (length seg))
     (visits (ForEach (Array 0 5 (Slicer ''hello'') 0 1
        (Some (Array 0 1 (Slicer ''j'') 0 0 None)))))) = 5 \<and>
   sum_list (map (\<lambda>(seg, c). sint c)
     (visits (ForEach (Array 0 5 (Slicer ''hello'') 0 1
        (Some (Array 0 1 (Slicer ''j'') 0 0 None)))))) = 5 \<and>
   built (2 ^ 63) (Array 0 2 (Slicer ''xy'') 0 0 None) \<and>
   in_bounds 1 3 (sint (Count (Array 0 5 (Slicer ''hello'') 0 1
        (Some (Array 0 1 (Slicer ''j'') 0 0 None))))) \<and>
   Splice (Array 0 5 (Slicer ''hello'') 0 1 (Some (Array 0 1 (Slicer ''j'') 0 0 None))) 1 3
       (Array 0 2 (Slicer ''xy'') 0 0 None) =
     Inr (Array (- 1) 4
       (Arr (Array 0 5 (Slicer ''hello'') 0 1 (Some (Array 0 1 (Slicer ''j'') 0 0 None))))
       1 3 (Some (Array 0 2 (Slicer ''xy'') 0 0 None))) \<and>
   sint (Count (Array (- 1) 4
       (Arr (Array 0 5 (Slicer ''hello'') 0 1 (Some (Array 0 1 (Slicer ''j'') 0 0 None))))
       1 3 (Some (Array 0 2 (Slicer ''xy'') 0 0 None)))) = 5 + 2 - 3 \<and>
   Slice (Array 0 5 (Slicer ''hello'') 0 1 (Some (Array 0 1 (Slicer ''j'') 0 0 None))) 1 3 =
     Inr (Array (- 1) 3
       (Arr (Array 0 5 (Slicer ''hello'') 0 1 (Some (Array 0 1 (Slicer ''j'') 0 0 None))))
       1 0 None) \<and>
   Count (Array (- 1) 3
       (Arr (Array 0 5 (Slicer ''hello'') 0 1 (Some (Array 0 1 (Slicer ''j'') 0 0 None))))
       1 0 None) = 3"
proof -
  let ?jello = "Array 0 5 (Slicer ''hello'') 0 1 (Some (Array 0 1 (Slicer ''j'') 0 0 None))"
  let ?xy = "Array 0 2 (Slicer ''xy'') 0 0 None"
  let ?b = "Array (- 1) 4 (Arr ?jello) 1 3 (Some ?xy)"
  let ?c = "Array (- 1) 3 (Arr ?jello) 1 0 None"
  note t = Count_is_number_of_positions [OF built_jello]
  have f: "tail_fits ?jello" by simp
  have x: "built (2 ^ 63) ?xy" by (rule built.leaf) simp_all
  have ib: "in_bounds 1 3 (sint (Count ?jello))" by (simp add: in_bounds_def)
  have sm: "sint (Count ?jello) - sint (3 :: int64) + sint (Count ?xy) < 2 ^ 63" by simp
  have sp: "Splice ?jello 1 3 ?xy = Inr ?b"
    by (simp add: Splice_def word_sless_alt)
  have sl: "Slice ?jello 1 3 = Inr ?c"
    by (simp add: Slice_def word_sless_alt)
  from t f have 1:
    "sum_list (map (\<lambda>(seg, c). int (length seg)) (visits (ForEach ?jello))) = sint (Count ?jello)"
    "sum_list (map (\<lambda>(seg, c). sint c) (visits (ForEach ?jello))) = sint (Count ?jello)"
    by blast+
  from t x ib sm sp have 2: "sint (Count ?b) = sint (Count ?jello) + sint (Count ?xy) - sint (3 :: int64)"
    by blast
  from t sl have 3: "Count ?c = 3" by blast
  have c: "sint (Count ?jello) = 5" "sint (Count ?xy) = 2" "sint (3 :: int64) = 3" by simp_all
  from 1 2 3 built_jello f x ib sp sl show ?thesis unfolding c by simp
qed

subsection \<open>C8: empty windows\<close>

text \<open>
  C8. For every position \<open>k\<close> with \<open>0 \<le> k \<le> Count\<close>, \<open>Slice(k, 0)\<close> returns a node
  whose count is \<open>0\<close> and whose limit is the limit of the node sliced. \<open>ForEach\<close> on a
  node whose count is \<open>0\<close>, the zero array among them, returns at once: it calls the
  callback zero times and does not panic.
\<close>

theorem empty_slice_and_empty_traversal:
  "(0 \<le>s k \<and> k \<le>s Count n \<longrightarrow>
      (\<exists>b. Slice n k 0 = Inr b \<and> Count b = 0 \<and> Limit b = Limit n)) \<and>
   (Count a = 0 \<longrightarrow> ForEach a = ([Enter (Arr a) 0 0], None) \<and> visits (ForEach a) = []) \<and>
   Count (zero :: 'a array) = 0"
proof (intro conjI impI)
  assume "0 \<le>s k \<and> k \<le>s Count n"
  then show "\<exists>b. Slice n k 0 = Inr b \<and> Count b = 0 \<and> Limit b = Limit n"
    by (auto simp: Slice_def word_sless_alt word_sle_eq)
next
  assume c: "Count a = 0"
  obtain limit count v aoff rc rep where a: "a = Array limit count v aoff rc rep"
    by (cases a)
  with c show "ForEach a = ([Enter (Arr a) 0 0], None)"
    by (simp add: ForEach_def Array_forEach.simps andThen_def enter_def)
  then show "visits (ForEach a) = []" by (simp add: visits_def)
next
  show "Count (zero :: 'a array) = 0" by (simp add: zero_def)
qed

theorem empty_slice_and_empty_traversal_witness:
  "(\<exists>b. Slice (newArray ''hello'') 3 0 = Inr b \<and> Count b = 0 \<and>
        Limit b = Limit (newArray ''hello'')) \<and>
   ForEach (zero :: char array) = ([Enter (Arr zero) 0 0], None) \<and>
   visits (ForEach (zero :: char array)) = []"
proof -
  have 1: "0 \<le>s (3 :: int64) \<and> 3 \<le>s Count (newArray ''hello'')"
    by (simp add: newArray_def newLeaf_def len_def word_sle_eq)
  have 2: "Count (zero :: char array) = 0" by (simp add: zero_def)
  from empty_slice_and_empty_traversal [of 3 "newArray ''hello''" "zero :: char array"] 1 2
  show ?thesis by blast
qed

subsection \<open>C9: the windows of the recursion\<close>

text \<open>
  C9. Stated for each window of the recursion, the claim fails on the empty ones: an
  empty intersection is returned as \<open>(0, 0)\<close> and translated like any other, so that the
  window passed on can start below \<open>0\<close>. On \<open>Slice(0, 1)\<close> of \<open>hello\<close> spliced with
  \<open>xyz\<close> at \<open>1\<close>, the traversal enters the replacement with the window \<open>(-1, 0)\<close>.
  Stated for every node built through the interface, it fails where the count wraps
  around: on the leaf \<open>a\<close> spliced into itself \<open>63\<close> times, \<open>ForEach\<close> starts with
  the window \<open>(0, Count)\<close>, whose count is negative. And it fails on the node \<open>Slice\<close>
  returns for the range \<open>(2 ^ 63 - 1, 1)\<close> of \<open>hello\<close>, whose right edge wraps around:
  \<open>ForEach\<close> asks the payload for that range.
\<close>

theorem empty_window_below_zero_counterexample:
  "built (2 ^ 63)
     (Array (- 1) 1 (Arr (Array 0 8 (Slicer ''hello'') 1 0
        (Some (Array 0 3 (Slicer ''xyz'') 0 0 None)))) 0 0 None) \<and>
   (Arr (Array 0 3 (Slicer ''xyz'') 0 0 None), - 1, 0) \<in>
     set (enters (ForEach
       (Array (- 1) 1 (Arr (Array 0 8 (Slicer ''hello'') 1 0
          (Some (Array 0 3 (Slicer ''xyz'') 0 0 None)))) 0 0 None))) \<and>
   \<not> in_bounds (- 1) 0 (bound (Arr (Array 0 3 (Slicer ''xyz'') 0 0 None))) \<and>
   built (2 ^ 64) ((double ^^ 63) (newArray ''a'')) \<and>
   (Arr ((double ^^ 63) (newArray ''a'')), 0, Count ((double ^^ 63) (newArray ''a''))) \<in>
     set (enters (ForEach ((double ^^ 63) (newArray ''a'')))) \<and>
   sint (Count ((double ^^ 63) (newArray ''a''))) < 0 \<and>
   Slice (newArray ''hello'') 9223372036854775807 1 =
     Inr (Array 0 1 (Slicer ''hello'') 9223372036854775807 0 None) \<and>
   (''hello'', 9223372036854775807, 1) \<in>
     set (requests (ForEach (Array 0 1 (Slicer ''hello'') 9223372036854775807 0 None))) \<and>
   \<not> in_bounds 9223372036854775807 1 (int (length ''hello''))"
proof -
  have x: "built (2 ^ 63) (Array 0 3 (Slicer ''xyz'') 0 0 None)"
    by (rule built.leaf) simp_all
  have s: "built (2 ^ 63) (Array 0 8 (Slicer ''hello'') 1 0
        (Some (Array 0 3 (Slicer ''xyz'') 0 0 None)))"
    by (rule built.splice [OF built_hello x, of 1 0])
       (simp_all add: in_bounds_def Splice_def word_sless_alt)
  have b: "built (2 ^ 63)
     (Array (- 1) 1 (Arr (Array 0 8 (Slicer ''hello'') 1 0
        (Some (Array 0 3 (Slicer ''xyz'') 0 0 None)))) 0 0 None)"
    by (rule built.slice [OF s, of 0 1])
       (simp_all add: in_bounds_def Slice_def word_sless_alt)
  have e: "(Arr (Array 0 3 (Slicer ''xyz'') 0 0 None), - 1, 0) \<in>
     set (enters (ForEach
       (Array (- 1) 1 (Arr (Array 0 8 (Slicer ''hello'') 1 0
          (Some (Array 0 3 (Slicer ''xyz'') 0 0 None)))) 0 0 None)))"
    by (simp add: ForEach_def Array_forEach.simps forEach.simps intersect_def andThen_def
        enter_def enters_def Slicer_Slice_def word_sless_alt word_sle_eq Let_def)
  have n: "\<not> in_bounds (- 1) 0 (bound (Arr (Array 0 3 (Slicer ''xyz'') 0 0 None)))"
    by (simp add: in_bounds_def)
  have r: "(''hello'', 9223372036854775807, 1) \<in>
     set (requests (ForEach (Array 0 1 (Slicer ''hello'') 9223372036854775807 0 None)))"
    unfolding ForEach_hello_wrapped by (simp add: requests_def)
  have m: "\<not> in_bounds 9223372036854775807 1 (int (length ''hello''))"
    by (simp add: in_bounds_def)
  from b e n wrapped_count ForEach_enters_whole [of "(double ^^ 63) (newArray ''a'')"]
    Slice_hello_wrapped r m
  show ?thesis by simp
qed

text \<open>
  C9, amended. For every node built through the interface by in-bounds edits, from the
  zero array and from leaves whose count is not negative and does not exceed the length
  of their payload, every splice returning fewer than \<open>2 ^ 63\<close> positions:
  \<open>ForEach\<close> does not panic, every request it makes to a payload of the node is in
  bounds of that payload, and every window of the recursion whose count is not zero
  satisfies \<open>0 \<le> offset\<close>, \<open>0 \<le> count\<close> and \<open>offset + count \<le>\<close> the count of the
  node or the length of the payload it is requested from. A window whose count is zero
  can have any offset.
\<close>

theorem traversal_windows_in_bounds:
  assumes "built (2 ^ 63) a"
  shows "snd (ForEach a) = None \<and>
         (\<forall>(s, off, cnt) \<in> set (requests (ForEach a)).
            s \<in> payloads a \<and> in_bounds off cnt (int (length s))) \<and>
         (\<forall>(t, off, cnt) \<in> set (enters (ForEach a)).
            cnt \<noteq> 0 \<longrightarrow> in_bounds off cnt (bound t))"
proof -
  from ForEach_orderly [OF built_valid [OF assms]]
  have "orderly (payloads a) (ForEach a)" .
  then show ?thesis unfolding orderly_def window_ok_def by fast
qed

theorem traversal_windows_in_bounds_witness:
  "built (2 ^ 63) (Array 0 5 (Slicer ''hello'') 0 1 (Some (Array 0 1 (Slicer ''j'') 0 0 None))) \<and>
   requests (ForEach (Array 0 5 (Slicer ''hello'') 0 1 (Some (Array 0 1 (Slicer ''j'') 0 0 None))))
     = [(''j'', 0, 1), (''hello'', 1, 4)] \<and>
   in_bounds 1 4 (int (length ''hello'')) \<and>
   snd (ForEach (Array 0 5 (Slicer ''hello'') 0 1 (Some (Array 0 1 (Slicer ''j'') 0 0 None))))
     = None"
proof -
  have r: "requests (ForEach (Array 0 5 (Slicer ''hello'') 0 1
      (Some (Array 0 1 (Slicer ''j'') 0 0 None)))) = [(''j'', 0, 1), (''hello'', 1, 4)]"
    by (simp add: ForEach_def Array_forEach.simps forEach.simps intersect_def andThen_def
        enter_def requests_def Slicer_Slice_def word_sless_alt word_sle_eq Let_def)
  from traversal_windows_in_bounds [OF built_jello] r built_jello show ?thesis by simp
qed

subsection \<open>C10: no empty segment is visited\<close>

lemma Slicer_Slice_nonempty:
  assumes "Slicer_Slice s off cnt = Inr seg" "cnt \<noteq> 0"
  shows "1 \<le> length seg"
proof -
  define hi where "hi = off + cnt"
  from assms(1) have b: "0 \<le> sint off" "sint off \<le> sint hi" "sint hi \<le> int (length s)"
    and seg: "seg = take (nat (sint hi) - nat (sint off)) (drop (nat (sint off)) s)"
    by (auto simp: Slicer_Slice_def Let_def hi_def word_sle_eq split: if_splits)
  have "hi \<noteq> off" using assms(2) by (simp add: hi_def)
  then have "sint hi \<noteq> sint off" by (metis signed_word_eqI)
  with b have "sint off < sint hi" by simp
  with b show ?thesis unfolding seg by simp
qed

lemma set_visits_andThen:
  "set (visits (andThen r1 r2)) \<subseteq> set (visits r1) \<union> set (visits r2)"
  by (auto simp: andThen_def visits_def split: option.splits)

lemma visits_nonempty:
  fixes v :: "'a iface" and a :: "'a array"
  shows "(seg, c) \<in> set (visits (forEach v off cnt)) \<Longrightarrow> c \<noteq> 0 \<and> 1 \<le> length seg"
    and "(seg, c) \<in> set (visits (Array_forEach a off' cnt')) \<Longrightarrow> c \<noteq> 0 \<and> 1 \<le> length seg"
proof (induction v off cnt and a off' cnt' rule: forEach_Array_forEach.induct)
  case (1 v off cnt)
  show ?case
  proof (cases "cnt = 0")
    case True
    with 1(2) show ?thesis
      by (simp add: forEach.simps andThen_def enter_def visits_def)
  next
    case False
    show ?thesis
    proof (cases v)
      case NilValue
      with 1(2) False show ?thesis
        by (simp add: forEach.simps andThen_def enter_def visits_def)
    next
      case (Slicer s)
      with 1(2) False show ?thesis
        using Slicer_Slice_nonempty [of s off cnt]
        by (auto simp: forEach.simps andThen_def enter_def visits_def split: sum.splits)
    next
      case (Arr a)
      with 1(2) False have "(seg, c) \<in> set (visits (Array_forEach a off cnt))"
        using set_visits_andThen [of "enter v off cnt" "Array_forEach a off cnt"]
        by (auto simp: forEach.simps)
      from 1(1) [OF False Arr this] show ?thesis .
    qed
  qed
next
  case (2 limit count v aoff rc rep off cnt)
  let ?a = "Array limit count v aoff rc rep"
  show ?case
  proof (cases "cnt = 0")
    case True
    with 2(5) show ?thesis
      by (simp add: Array_forEach.simps andThen_def enter_def visits_def)
  next
    case False
    show ?thesis
    proof (cases rep)
      case None
      with 2(5) False have "(seg, c) \<in> set (visits (forEach v (aoff + off) cnt))"
        using set_visits_andThen [of "enter (Arr ?a) off cnt" "forEach v (aoff + off) cnt"]
        by (auto simp: Array_forEach.simps)
      from 2(1) [OF False None this] show ?thesis .
    next
      case (Some r)
      obtain o1 c1 where i1: "intersect off cnt 0 aoff = (o1, c1)" by force
      obtain o2 c2 where i2: "intersect off cnt aoff (Count r) = (o2, c2)" by force
      obtain o3 c3 where i3: "intersect off cnt (aoff + Count r) count = (o3, c3)" by force
      note ih1 = 2(2) [OF False Some refl i1 [symmetric] refl i2 [symmetric] refl i3 [symmetric]]
      note ih2 = 2(3) [OF False Some refl i1 [symmetric] refl i2 [symmetric] refl i3 [symmetric]]
      note ih3 = 2(4) [OF False Some refl i1 [symmetric] refl i2 [symmetric] refl i3 [symmetric]]
      let ?r1 = "forEach v o1 c1" and ?r2 = "Array_forEach r (o2 - aoff) c2"
      let ?r3 = "forEach v (o3 - Count r + rc) c3"
      have "Array_forEach ?a off cnt =
          andThen (enter (Arr ?a) off cnt) (andThen ?r1 (andThen ?r2 ?r3))"
        using Some False i1 i2 i3 by (simp add: Array_forEach.simps)
      with 2(5) have "(seg, c) \<in> set (visits ?r1) \<union> set (visits ?r2) \<union> set (visits ?r3)"
        using set_visits_andThen [of "enter (Arr ?a) off cnt" "andThen ?r1 (andThen ?r2 ?r3)"]
          set_visits_andThen [of ?r1 "andThen ?r2 ?r3"] set_visits_andThen [of ?r2 ?r3]
        by auto
      with ih1 ih2 ih3 show ?thesis by blast
    qed
  qed
qed

text \<open>
  C10. For every node, whatever it holds, \<open>ForEach\<close> never calls the callback with a
  count of zero, and the segment it passes has at least one element: every window whose
  count is zero returns before a payload is asked.
\<close>

theorem ForEach_never_visits_empty_segment:
  "\<forall>(seg, c) \<in> set (visits (ForEach a)). c \<noteq> 0 \<and> 1 \<le> length seg"
  using visits_nonempty(2) [of _ _ a 0 "Count a"] by (auto simp: ForEach_def)

theorem ForEach_never_visits_empty_segment_witness:
  "visits (ForEach (Array 0 4 (Slicer ''hello'') 0 1 (Some (Array 0 0 NilValue 0 0 None)))) =
     [(''ello'', 4)] \<and>
   (4 :: int64) \<noteq> 0 \<and> 1 \<le> length ''ello''"
proof -
  have v: "visits (ForEach (Array 0 4 (Slicer ''hello'') 0 1 (Some (Array 0 0 NilValue 0 0 None)))) =
     [(''ello'', 4)]"
    by (simp add: ForEach_def Array_forEach.simps forEach.simps intersect_def andThen_def
        enter_def visits_def Slicer_Slice_def word_sless_alt word_sle_eq Let_def)
  from ForEach_never_visits_empty_segment
    [of "Array 0 4 (Slicer ''hello'') 0 1 (Some (Array 0 0 NilValue 0 0 None))"] v
  show ?thesis by simp
qed

end
